theory Spec2Isabelle
  imports Complex_Main "HOL-Library.Log_Nat" "HOL-Library.Char_ord" "HOL-Library.List_Lexorder"
begin

section \<open>JavaScript numbers\<close>

text \<open>
  \<^verbatim>\<open>OrderRow.amount\<close> and every sum, quotient and rate of \<^verbatim>\<open>Reports.tsx\<close> is a
  JavaScript \<^verbatim>\<open>number\<close>: an IEEE 754 binary64 value. A finite value is kept as the
  rational it denotes; every arithmetic result is rounded to the nearest binary64 value,
  ties to the even significand, and overflows to an infinity. The two zeros are
  identified: they are equal under \<^verbatim>\<open>===\<close>, and no reducer divides by an amount.
\<close>

datatype number = Num rat | PInf | NInf | NaN

text \<open>\<open>ilog2 q\<close> is the binary exponent of a positive rational: \<open>2 ^ e \<le> q < 2 ^ (e + 1)\<close>.\<close>

definition ilog2 :: "rat \<Rightarrow> int" where
  "ilog2 q =
     (case quotient_of q of (a, b) \<Rightarrow>
        let d = int (floorlog 2 (nat a)) - int (floorlog 2 (nat b))
        in if 2 powi d \<le> q then d else d - 1)"

text \<open>Nearest integer, a tie going to the even neighbour.\<close>

definition round_even :: "rat \<Rightarrow> int" where
  "round_even x =
     (let f = \<lfloor>x\<rfloor>; d = x - of_int f
      in if d < 1 / 2 then f else if 1 / 2 < d then f + 1 else if even f then f else f + 1)"

text \<open>
  The spacing of binary64 values around \<open>q\<close> is \<open>2 ^ (e - 52)\<close> for the binary
  exponent \<open>e\<close> of \<open>q\<close>, and \<open>2 ^ (- 1074)\<close> in the subnormal range.
\<close>

definition ulp :: "rat \<Rightarrow> rat" where
  "ulp q = 2 powi (max (ilog2 \<bar>q\<bar>) (- 1022) - 52)"

definition fl :: "rat \<Rightarrow> number" where
  "fl q =
     (if q = 0 then Num 0
      else let r = of_int (round_even (q / ulp q)) * ulp q
           in if 2 ^ 1024 \<le> \<bar>r\<bar> then (if 0 < q then PInf else NInf) else Num r)"

definition is_double :: "number \<Rightarrow> bool" where
  "is_double x = (case x of Num q \<Rightarrow> fl q = Num q | _ \<Rightarrow> True)"

fun num_add :: "number \<Rightarrow> number \<Rightarrow> number" where
  "num_add (Num a) (Num b) = fl (a + b)"
| "num_add NaN y = NaN"
| "num_add x NaN = NaN"
| "num_add PInf NInf = NaN"
| "num_add NInf PInf = NaN"
| "num_add PInf y = PInf"
| "num_add x PInf = PInf"
| "num_add NInf y = NInf"
| "num_add x NInf = NInf"

text \<open>
  A zero divisor is taken as \<open>+0\<close>; \<^verbatim>\<open>totals\<close> divides by \<^verbatim>\<open>filtered.length\<close>
  only, and only when it is not zero.
\<close>

fun num_div :: "number \<Rightarrow> number \<Rightarrow> number" where
  "num_div (Num a) (Num b) =
     (if b = 0 then (if a = 0 then NaN else if 0 < a then PInf else NInf) else fl (a / b))"
| "num_div NaN y = NaN"
| "num_div x NaN = NaN"
| "num_div (Num a) y = Num 0"
| "num_div PInf (Num b) = (if 0 \<le> b then PInf else NInf)"
| "num_div NInf (Num b) = (if 0 \<le> b then NInf else PInf)"
| "num_div x y = NaN"

fun num_mul :: "number \<Rightarrow> number \<Rightarrow> number" where
  "num_mul (Num a) (Num b) = fl (a * b)"
| "num_mul NaN y = NaN"
| "num_mul x NaN = NaN"
| "num_mul (Num a) PInf = (if a = 0 then NaN else if 0 < a then PInf else NInf)"
| "num_mul (Num a) NInf = (if a = 0 then NaN else if 0 < a then NInf else PInf)"
| "num_mul PInf (Num b) = (if b = 0 then NaN else if 0 < b then PInf else NInf)"
| "num_mul NInf (Num b) = (if b = 0 then NaN else if 0 < b then NInf else PInf)"
| "num_mul PInf PInf = PInf"
| "num_mul NInf NInf = PInf"
| "num_mul x y = NInf"

text \<open>
  An array length or a counter is a number too, and an exact one: a JavaScript array
  holds fewer than \<open>2 ^ 32\<close> elements. Counts are natural numbers in this theory, and
  \<open>of_count\<close> is the number they are.
\<close>

definition of_count :: "nat \<Rightarrow> number" where
  "of_count n = Num (of_nat n)"

section \<open>The data model of \<^verbatim>\<open>Reports.tsx\<close>\<close>

datatype Channel = hepsiburada | trendyol | ticimax | site | other

datatype Status = pending | processing | shipped | delivered | cancelled | returned

text \<open>
  The optional \<^verbatim>\<open>cargoSlipPrintedAt?: string | null\<close> is \<open>None\<close> when absent or
  \<^verbatim>\<open>null\<close>; the component only ever tests its truthiness.
\<close>

record OrderRow =
  order_id :: number
  date :: string
  channel :: Channel
  status :: Status
  amount :: number
  customer :: string
  cargoProvider :: "string option"
  cargoSlipPrintedAt :: "string option"

definition channelOrder :: "Channel list" where
  "channelOrder = [hepsiburada, trendyol, ticimax, site, other]"

text \<open>Truthiness of an optional string: \<^verbatim>\<open>undefined\<close>, \<^verbatim>\<open>null\<close> and \<^verbatim>\<open>''\<close> are falsy.\<close>

definition truthy :: "string option \<Rightarrow> bool" where
  "truthy v = (case v of None \<Rightarrow> False | Some s \<Rightarrow> s \<noteq> [])"

section \<open>The aggregation reducers\<close>

subsection \<open>\<^verbatim>\<open>totals\<close>\<close>

record Totals =
  totalAmount :: number
  orderCount :: nat
  avgBasket :: number
  returnedRate :: number
  onTimeRate :: number

text \<open>\<^verbatim>\<open>filtered.reduce((s, o) => s + o.amount, 0)\<close>: a left fold from \<open>0\<close>.\<close>

definition sum_amount :: "OrderRow list \<Rightarrow> number" where
  "sum_amount os = foldl (\<lambda>s row. num_add s (amount row)) (Num 0) os"

definition totals :: "OrderRow list \<Rightarrow> Totals" where
  "totals filtered =
     (let totalAmount = sum_amount filtered;
          orderCount = length filtered;
          avgBasket = (if orderCount \<noteq> 0 then num_div totalAmount (of_count orderCount) else Num 0);
          returns = length (filter (\<lambda>row. status row = returned) filtered);
          returnedRate = (if orderCount \<noteq> 0
             then num_mul (num_div (of_count returns) (of_count orderCount)) (Num 100) else Num 0);
          onTimeCargo = length (filter (\<lambda>row. truthy (cargoSlipPrintedAt row)) filtered);
          onTimeRate = (if orderCount \<noteq> 0
             then num_mul (num_div (of_count onTimeCargo) (of_count orderCount)) (Num 100) else Num 0)
      in \<lparr>totalAmount = totalAmount, orderCount = orderCount, avgBasket = avgBasket,
          returnedRate = returnedRate, onTimeRate = onTimeRate\<rparr>)"

subsection \<open>\<^verbatim>\<open>byChannel\<close>\<close>

record ChannelBucket =
  cb_channel :: Channel
  cb_amount :: number
  cb_count :: nat

text \<open>The object \<^verbatim>\<open>map\<close>, one entry per channel, and the loop body that updates it.\<close>

definition channel_map0 :: "Channel \<Rightarrow> ChannelBucket" where
  "channel_map0 c = \<lparr>cb_channel = c, cb_amount = Num 0, cb_count = 0\<rparr>"

definition channel_step :: "(Channel \<Rightarrow> ChannelBucket) \<Rightarrow> OrderRow \<Rightarrow> (Channel \<Rightarrow> ChannelBucket)" where
  "channel_step m row =
     m (channel row := (m (channel row))
          \<lparr>cb_amount := num_add (cb_amount (m (channel row))) (amount row),
           cb_count := cb_count (m (channel row)) + 1\<rparr>)"

definition byChannel :: "OrderRow list \<Rightarrow> ChannelBucket list" where
  "byChannel filtered = map (foldl channel_step channel_map0 filtered) channelOrder"

subsection \<open>\<^verbatim>\<open>byStatus\<close>\<close>

record StatusBucket =
  sb_status :: Status
  sb_value :: nat

text \<open>
  The keys of the object literal \<^verbatim>\<open>map\<close>, in the order \<^verbatim>\<open>Object.entries\<close> lists them;
  \<open>status_data\<close> is the array \<^verbatim>\<open>data\<close> built from the counters after the loop.
\<close>

definition status_keys :: "Status list" where
  "status_keys = [pending, processing, shipped, delivered, cancelled, returned]"

definition status_step :: "(Status \<Rightarrow> nat) \<Rightarrow> OrderRow \<Rightarrow> (Status \<Rightarrow> nat)" where
  "status_step m row = m (status row := m (status row) + 1)"

definition status_data :: "OrderRow list \<Rightarrow> StatusBucket list" where
  "status_data filtered =
     map (\<lambda>k. \<lparr>sb_status = k, sb_value = foldl status_step (\<lambda>k. 0) filtered k\<rparr>) status_keys"

definition byStatus :: "OrderRow list \<Rightarrow> StatusBucket list" where
  "byStatus filtered =
     (let data = status_data filtered;
          total = foldl (\<lambda>s d. s + sb_value d) 0 data
      in if total = 0 then [\<lparr>sb_status = pending, sb_value = 1\<rparr>] else data)"

subsection \<open>\<^verbatim>\<open>timeSeries\<close>\<close>

record DayBucket =
  db_date :: string
  db_amount :: number
  db_count :: nat

text \<open>
  The object \<^verbatim>\<open>bucket\<close> starts as \<^verbatim>\<open>{}\<close>; its own properties are kept with their
  keys, in the order of their creation. A read \<^verbatim>\<open>bucket[o.date]\<close> also finds what
  \<^verbatim>\<open>{}\<close> inherits from \<^verbatim>\<open>Object.prototype\<close>: under such a name the test
  \<^verbatim>\<open>!bucket[o.date]\<close> is false, no own property is made, and the two \<^verbatim>\<open>+=\<close> land on the
  inherited object.
\<close>

definition object_prototype_keys :: "string list" where
  "object_prototype_keys =
     [''constructor'', ''hasOwnProperty'', ''isPrototypeOf'', ''propertyIsEnumerable'',
      ''toLocaleString'', ''toString'', ''valueOf'', ''__proto__'', ''__defineGetter__'',
      ''__defineSetter__'', ''__lookupGetter__'', ''__lookupSetter__'']"

definition zero_bucket :: "string \<Rightarrow> DayBucket" where
  "zero_bucket k = \<lparr>db_date = k, db_amount = Num 0, db_count = 0\<rparr>"

definition add_row :: "DayBucket \<Rightarrow> OrderRow \<Rightarrow> DayBucket" where
  "add_row d row =
     d\<lparr>db_amount := num_add (db_amount d) (amount row), db_count := db_count d + 1\<rparr>"

definition time_step :: "(string \<times> DayBucket) list \<Rightarrow> OrderRow \<Rightarrow> (string \<times> DayBucket) list" where
  "time_step bucket row =
     (if date row \<in> set object_prototype_keys then bucket
      else let bucket1 =
                 (if map_of bucket (date row) = None
                  then bucket @ [(date row, zero_bucket (date row))]
                  else bucket)
           in map (\<lambda>(k, d). if k = date row then (k, add_row d row) else (k, d)) bucket1)"

text \<open>
  \<^verbatim>\<open>Object.values\<close> lists the own properties whose key is an array index (the decimal
  numeral of an integer below \<open>2 ^ 32 - 1\<close>) first, by ascending index, and then the
  others in the order of their creation.
\<close>

definition digit_value :: "char \<Rightarrow> nat" where
  "digit_value c = of_char c - 48"

definition numeral_value :: "string \<Rightarrow> nat" where
  "numeral_value s = foldl (\<lambda>n c. 10 * n + digit_value c) 0 s"

definition array_index :: "string \<Rightarrow> nat option" where
  "array_index s =
     (if s \<noteq> [] \<and> list_all (\<lambda>c. c \<in> set ''0123456789'') s \<and>
         (s = ''0'' \<or> hd s \<noteq> CHR ''0'') \<and> numeral_value s < 2 ^ 32 - 1
      then Some (numeral_value s) else None)"

definition object_values :: "(string \<times> 'a) list \<Rightarrow> 'a list" where
  "object_values obj =
     map snd (sort_key (\<lambda>(k, v). case array_index k of Some i \<Rightarrow> i | None \<Rightarrow> 0)
                (filter (\<lambda>(k, v). array_index k \<noteq> None) obj)) @
     map snd (filter (\<lambda>(k, v). array_index k = None) obj)"

text \<open>
  \<^verbatim>\<open>Array.prototype.sort\<close> with a comparator: a stable sort, here by insertion. An
  element goes before the first one it compares below.
\<close>

fun insert_by :: "('a \<Rightarrow> 'a \<Rightarrow> int) \<Rightarrow> 'a \<Rightarrow> 'a list \<Rightarrow> 'a list" where
  "insert_by cmp x [] = [x]"
| "insert_by cmp x (y # ys) = (if cmp x y < 0 then x # y # ys else y # insert_by cmp x ys)"

definition sort_by :: "('a \<Rightarrow> 'a \<Rightarrow> int) \<Rightarrow> 'a list \<Rightarrow> 'a list" where
  "sort_by cmp xs = foldl (\<lambda>acc x. insert_by cmp x acc) [] xs"

text \<open>
  \<^verbatim>\<open>String.prototype.localeCompare\<close> collates by the locale of the browser; it is the
  parameter \<open>localeCompare\<close>.
\<close>

definition timeSeries :: "(string \<Rightarrow> string \<Rightarrow> int) \<Rightarrow> OrderRow list \<Rightarrow> DayBucket list" where
  "timeSeries localeCompare filtered =
     (let bucket = foldl time_step [] filtered
      in sort_by (\<lambda>a b. localeCompare (db_date a) (db_date b)) (object_values bucket))"

text \<open>
  A calendar day is written \<^verbatim>\<open>YYYY-MM-DD\<close>. On such strings every collation orders as
  the code units do; \<open>collates_days cmp\<close> says so of a comparator, and
  \<open>code_unit_compare\<close> is one such comparator.
\<close>

definition iso_date :: "string \<Rightarrow> bool" where
  "iso_date s =
     (length s = 10 \<and> list_all (\<lambda>i. s ! i \<in> set ''0123456789'') [0, 1, 2, 3, 5, 6, 8, 9] \<and>
      s ! 4 = CHR ''-'' \<and> s ! 7 = CHR ''-'')"

definition collates_days :: "(string \<Rightarrow> string \<Rightarrow> int) \<Rightarrow> bool" where
  "collates_days cmp =
     (\<forall>a b. iso_date a \<longrightarrow> iso_date b \<longrightarrow> (cmp a b < 0 \<longleftrightarrow> a < b) \<and> (cmp a b = 0 \<longleftrightarrow> a = b))"

definition code_unit_compare :: "string \<Rightarrow> string \<Rightarrow> int" where
  "code_unit_compare a b = (if a < b then - 1 else if a = b then 0 else 1)"

subsection \<open>Sums of numbers\<close>

text \<open>
  The sum of a list of numbers, added up from the left as \<^verbatim>\<open>reduce\<close> does. An amount is
  whole when it is a non-negative integer; \<open>units\<close> is that integer.
\<close>

definition sum_numbers :: "number list \<Rightarrow> number" where
  "sum_numbers xs = foldl num_add (Num 0) xs"

definition whole :: "number \<Rightarrow> bool" where
  "whole x = (case x of Num q \<Rightarrow> 0 \<le> q \<and> of_int \<lfloor>q\<rfloor> = q | _ \<Rightarrow> False)"

definition units :: "number \<Rightarrow> nat" where
  "units x = (case x of Num q \<Rightarrow> nat \<lfloor>q\<rfloor> | _ \<Rightarrow> 0)"

section \<open>The order fetcher\<close>


record ApiResult =
  success :: bool
  data :: "OrderRow list"
  message :: "string option"














section \<open>CSV export\<close>












section \<open>Dates and the quick ranges\<close>

text \<open>
  A \<^verbatim>\<open>Date\<close> holds a time value: milliseconds since the epoch, in UTC. The calendar
  functions are those of the language definition. The offset of the browser's time zone
  is the parameter \<open>tza\<close>: \<open>tza t True\<close> is the offset, in milliseconds, that applies at
  the UTC time \<open>t\<close>, and \<open>tza t False\<close> the one that applies at the local time \<open>t\<close>.
\<close>

definition msPerDay :: int where
  "msPerDay = 86400000"

definition Day :: "int \<Rightarrow> int" where
  "Day t = t div msPerDay"

definition TimeWithinDay :: "int \<Rightarrow> int" where
  "TimeWithinDay t = t mod msPerDay"

definition DaysInYear :: "int \<Rightarrow> int" where
  "DaysInYear y =
     (if y mod 4 \<noteq> 0 then 365 else if y mod 100 \<noteq> 0 then 366
      else if y mod 400 \<noteq> 0 then 365 else 366)"

definition DayFromYear :: "int \<Rightarrow> int" where
  "DayFromYear y =
     365 * (y - 1970) + (y - 1969) div 4 - (y - 1901) div 100 + (y - 1601) div 400"

text \<open>
  The year of a time value is the largest \<open>y\<close> whose first day is not after it: an
  estimate from the mean length of a year, put right by at most one.
\<close>

definition YearFromTime :: "int \<Rightarrow> int" where
  "YearFromTime t =
     (let d = Day t; y = 1970 + (d * 400) div 146097
      in if DayFromYear (y + 1) \<le> d then y + 1 else if d < DayFromYear y then y - 1 else y)"

definition InLeapYear :: "int \<Rightarrow> int" where
  "InLeapYear t = (if DaysInYear (YearFromTime t) = 366 then 1 else 0)"

definition DayWithinYear :: "int \<Rightarrow> int" where
  "DayWithinYear t = Day t - DayFromYear (YearFromTime t)"

definition MonthFromTime :: "int \<Rightarrow> int" where
  "MonthFromTime t =
     (let d = DayWithinYear t; l = InLeapYear t
      in if d < 31 then 0 else if d < 59 + l then 1 else if d < 90 + l then 2
         else if d < 120 + l then 3 else if d < 151 + l then 4 else if d < 181 + l then 5
         else if d < 212 + l then 6 else if d < 243 + l then 7 else if d < 273 + l then 8
         else if d < 304 + l then 9 else if d < 334 + l then 10 else 11)"

definition DateFromTime :: "int \<Rightarrow> int" where
  "DateFromTime t =
     (let d = DayWithinYear t; l = InLeapYear t; m = MonthFromTime t
      in if m = 0 then d + 1 else if m = 1 then d - 30 else if m = 2 then d - 58 - l
         else if m = 3 then d - 89 - l else if m = 4 then d - 119 - l
         else if m = 5 then d - 150 - l else if m = 6 then d - 180 - l
         else if m = 7 then d - 211 - l else if m = 8 then d - 242 - l
         else if m = 9 then d - 272 - l else if m = 10 then d - 303 - l else d - 333 - l)"

definition HourFromTime :: "int \<Rightarrow> int" where
  "HourFromTime t = (t div 3600000) mod 24"

definition MinFromTime :: "int \<Rightarrow> int" where
  "MinFromTime t = (t div 60000) mod 60"

definition SecFromTime :: "int \<Rightarrow> int" where
  "SecFromTime t = (t div 1000) mod 60"

definition msFromTime :: "int \<Rightarrow> int" where
  "msFromTime t = t mod 1000"

text \<open>
  \<open>MakeDay year month date\<close>: the day number of the first day of the month, found
  from the year (the months beyond a year carry into it), plus the date, which may lie
  outside the month.
\<close>

definition MakeDay :: "int \<Rightarrow> int \<Rightarrow> int \<Rightarrow> int" where
  "MakeDay year month dt =
     (let ym = year + month div 12; mn = month mod 12;
          l = (if DaysInYear ym = 366 then 1 else 0);
          first = (if mn = 0 then 0 else if mn = 1 then 31 else if mn = 2 then 59 + l
             else if mn = 3 then 90 + l else if mn = 4 then 120 + l else if mn = 5 then 151 + l
             else if mn = 6 then 181 + l else if mn = 7 then 212 + l else if mn = 8 then 243 + l
             else if mn = 9 then 273 + l else if mn = 10 then 304 + l else 334 + l)
      in DayFromYear ym + first + dt - 1)"

definition MakeTime :: "int \<Rightarrow> int \<Rightarrow> int \<Rightarrow> int \<Rightarrow> int" where
  "MakeTime h m s ms = h * 3600000 + m * 60000 + s * 1000 + ms"

definition MakeDate :: "int \<Rightarrow> int \<Rightarrow> int" where
  "MakeDate day time = day * msPerDay + time"

definition LocalTime :: "(int \<Rightarrow> bool \<Rightarrow> int) \<Rightarrow> int \<Rightarrow> int" where
  "LocalTime tza t = t + tza t True"

definition UTC :: "(int \<Rightarrow> bool \<Rightarrow> int) \<Rightarrow> int \<Rightarrow> int" where
  "UTC tza t = t - tza t False"

text \<open>A time value beyond \<open>8.64 * 10 ^ 15\<close> milliseconds is no date: \<open>None\<close>.\<close>

definition TimeClip :: "int \<Rightarrow> int option" where
  "TimeClip t = (if 8640000000000000 < \<bar>t\<bar> then None else Some t)"

text \<open>The methods of \<^verbatim>\<open>Date\<close> that \<^verbatim>\<open>resetQuickRange\<close> calls, on a valid date.\<close>

definition getFullYear :: "(int \<Rightarrow> bool \<Rightarrow> int) \<Rightarrow> int \<Rightarrow> int" where
  "getFullYear tza t = YearFromTime (LocalTime tza t)"

definition getMonth :: "(int \<Rightarrow> bool \<Rightarrow> int) \<Rightarrow> int \<Rightarrow> int" where
  "getMonth tza t = MonthFromTime (LocalTime tza t)"

definition getDate :: "(int \<Rightarrow> bool \<Rightarrow> int) \<Rightarrow> int \<Rightarrow> int" where
  "getDate tza t = DateFromTime (LocalTime tza t)"

definition setDate :: "(int \<Rightarrow> bool \<Rightarrow> int) \<Rightarrow> int \<Rightarrow> int \<Rightarrow> int option" where
  "setDate tza t dt =
     (let lt = LocalTime tza t;
          newDate = MakeDate (MakeDay (YearFromTime lt) (MonthFromTime lt) dt) (TimeWithinDay lt)
      in TimeClip (UTC tza newDate))"

text \<open>\<^verbatim>\<open>new Date(year, month, date)\<close>: local midnight of that day.\<close>

definition new_Date :: "(int \<Rightarrow> bool \<Rightarrow> int) \<Rightarrow> int \<Rightarrow> int \<Rightarrow> int \<Rightarrow> int option" where
  "new_Date tza year month dt =
     (let yr = (if 0 \<le> year \<and> year \<le> 99 then 1900 + year else year);
          finalDate = MakeDate (MakeDay yr month dt) (MakeTime 0 0 0 0)
      in TimeClip (UTC tza finalDate))"

definition digit :: "int \<Rightarrow> char" where
  "digit d = ''0123456789'' ! nat d"

definition pad2 :: "int \<Rightarrow> string" where
  "pad2 n = [digit (n div 10 mod 10), digit (n mod 10)]"

definition pad3 :: "int \<Rightarrow> string" where
  "pad3 n = digit (n div 100 mod 10) # pad2 n"

definition pad4 :: "int \<Rightarrow> string" where
  "pad4 n = digit (n div 1000 mod 10) # pad3 n"

definition pad6 :: "int \<Rightarrow> string" where
  "pad6 n = [digit (n div 100000 mod 10), digit (n div 10000 mod 10)] @ pad4 n"

datatype date_error = RangeError

text \<open>
  \<^verbatim>\<open>toISOString\<close> prints the UTC fields of the time value and throws on an invalid
  date; a year outside 0 to 9999 is printed with a sign and six digits.
\<close>

definition toISOString :: "int option \<Rightarrow> date_error + string" where
  "toISOString d =
     (case d of
        None \<Rightarrow> Inl RangeError
      | Some t \<Rightarrow>
          let y = YearFromTime t;
              year = (if 0 \<le> y \<and> y \<le> 9999 then pad4 y
                      else (if y < 0 then ''-'' else ''+'') @ pad6 \<bar>y\<bar>)
          in Inr (year @ ''-'' @ pad2 (MonthFromTime t + 1) @ ''-'' @ pad2 (DateFromTime t) @
                  ''T'' @ pad2 (HourFromTime t) @ '':'' @ pad2 (MinFromTime t) @ '':'' @
                  pad2 (SecFromTime t) @ ''.'' @ pad3 (msFromTime t) @ ''Z''))"

text \<open>\<^verbatim>\<open>d.toISOString().slice(0, 10)\<close>\<close>

definition iso_day :: "int option \<Rightarrow> date_error + string" where
  "iso_day d = (case toISOString d of Inl e \<Rightarrow> Inl e | Inr text \<Rightarrow> Inr (take 10 text))"

record RangeState =
  quickRange :: string
  startDate :: string
  endDate :: string

text \<open>
  \<^verbatim>\<open>resetQuickRange(id)\<close> at the instant \<open>now\<close>, which \<^verbatim>\<open>new Date()\<close> reads: the state
  after the setter calls, and the error that interrupted them, if one did.
\<close>

definition set_range :: "RangeState \<Rightarrow> int option \<Rightarrow> int \<Rightarrow> RangeState \<times> date_error option" where
  "set_range s start today =
     (case iso_day start of
        Inl e \<Rightarrow> (s, Some e)
      | Inr a \<Rightarrow>
          (case iso_day (Some today) of
             Inl e \<Rightarrow> (s\<lparr>startDate := a\<rparr>, Some e)
           | Inr b \<Rightarrow> (s\<lparr>startDate := a, endDate := b\<rparr>, None)))"

definition resetQuickRange ::
  "(int \<Rightarrow> bool \<Rightarrow> int) \<Rightarrow> int \<Rightarrow> string \<Rightarrow> RangeState \<Rightarrow> RangeState \<times> date_error option" where
  "resetQuickRange tza now ident s =
     (let s1 = s\<lparr>quickRange := ident\<rparr>; today = now
      in if ident = ''7d'' then set_range s1 (setDate tza today (getDate tza today - 6)) today
         else if ident = ''30d'' then set_range s1 (setDate tza today (getDate tza today - 29)) today
         else if ident = ''thisMonth''
           then set_range s1 (new_Date tza (getFullYear tza today) (getMonth tza today) 1) today
         else (s1, None))"

text \<open>
  Istanbul has been three hours ahead of UTC all year round since 2016. The two
  instants are noon of 15 March 2024 there, and one hour past its midnight.
\<close>

definition istanbul :: "int \<Rightarrow> bool \<Rightarrow> int" where
  "istanbul t isUTC = 10800000"

definition noon_15_march :: int where
  "noon_15_march = 1710493200000"

definition one_am_15_march :: int where
  "one_am_15_march = 1710453600000"

section \<open>The load-test script\<close>

text \<open>
  One iteration of the k6 script \<^verbatim>\<open>part_000\<close>. What k6 and the server do is the
  runtime the script runs in:
  \<^item> \<open>http\<close> answers a request with a response object. When the request fails before
    any HTTP response arrives, k6 still returns an object, with status 0 and a
    \<^verbatim>\<open>null\<close> body;
  \<^item> \<open>gjson\<close> is the path lookup behind \<^verbatim>\<open>Response.json(selector)\<close>: the value at the
    path, or \<^verbatim>\<open>undefined\<close> (\<open>None\<close>) when the text is not JSON or has no such path. On a
    \<^verbatim>\<open>null\<close> body \<^verbatim>\<open>json\<close> throws;
  \<^item> \<open>to_text\<close> is the text a value has inside a template literal, and \<open>stringify\<close> is
    \<^verbatim>\<open>JSON.stringify\<close> on an object literal, given as its properties in order.
\<close>

record k6_response =
  k6_status :: int
  k6_body :: "string option"

datatype 'v jsval = Captured "'v option" | NumLit int | StrLit string

datatype payload = Form "(string \<times> string) list" | Text string

datatype request =
    Get string "(string \<times> string) list"
  | Post string payload "(string \<times> string) list option"

record 'v runtime =
  http :: "request \<Rightarrow> k6_response"
  gjson :: "string \<Rightarrow> string \<Rightarrow> 'v option"
  to_text :: "'v option \<Rightarrow> string"
  stringify :: "(string \<times> 'v jsval) list \<Rightarrow> string"

datatype k6_error = BodyIsNull

definition json :: "'v runtime \<Rightarrow> k6_response \<Rightarrow> string \<Rightarrow> k6_error + 'v option" where
  "json rt res selector =
     (case k6_body res of None \<Rightarrow> Inl BodyIsNull | Some text \<Rightarrow> Inr (gjson rt text selector))"

datatype event = Http request | Check string bool | Sleep nat

definition BASE_URL :: string where
  "BASE_URL = ''https://api.huglutekstil.com/api''"

definition API_KEY :: string where
  "API_KEY = ''huglu_1f3a9b6c2e8d4f0a7b1c3d5e9f2468ab1c2d3e4f5a6b7c8d9e0f1a2b3c4d5e6f''"

definition login_request :: request where
  "login_request =
     Post (BASE_URL @ ''/auth/login'')
       (Form [(''email'', ''test@test.com''), (''password'', ''123456'')]) None"

definition auth_headers :: "'v runtime \<Rightarrow> 'v option \<Rightarrow> (string \<times> string) list" where
  "auth_headers rt token =
     [(''Authorization'', ''Bearer '' @ to_text rt token),
      (''x-api-key'', API_KEY),
      (''Content-Type'', ''application/json'')]"

definition products_request :: "(string \<times> string) list \<Rightarrow> request" where
  "products_request headers = Get (BASE_URL @ ''/products?page=1&limit=20'') headers"

definition cart_request :: "'v runtime \<Rightarrow> (string \<times> string) list \<Rightarrow> 'v option \<Rightarrow> request" where
  "cart_request rt headers productId =
     Post (BASE_URL @ ''/cart/add'')
       (Text (stringify rt [(''product_id'', Captured productId), (''quantity'', NumLit 1)]))
       (Some headers)"

definition order_request :: "'v runtime \<Rightarrow> (string \<times> string) list \<Rightarrow> request" where
  "order_request rt headers =
     Post (BASE_URL @ ''/order'')
       (Text (stringify rt [(''payment'', StrLit ''TEST_MODE''), (''shipping'', StrLit ''EXPRESS'')]))
       (Some headers)"

text \<open>
  The names of the four checks; the Turkish letters are spelled as UTF-8 bytes.
\<close>

definition check_login :: string where
  "check_login = ''Login ba'' @ [CHR 0xC5, CHR 0x9F] @ ''ar'' @ [CHR 0xC4, CHR 0xB1] @ ''l''
     @ [CHR 0xC4, CHR 0xB1]"

definition check_products :: string where
  "check_products = [CHR 0xC3, CHR 0x9C] @ ''r'' @ [CHR 0xC3, CHR 0xBC] @ ''nler geldi''"

definition check_cart :: string where
  "check_cart = ''Sepete eklendi''"

definition check_order :: string where
  "check_order = ''Sipari'' @ [CHR 0xC5, CHR 0x9F] @ '' ba'' @ [CHR 0xC5, CHR 0x9F] @ ''ar''
     @ [CHR 0xC4, CHR 0xB1] @ ''l'' @ [CHR 0xC4, CHR 0xB1]"

text \<open>
  The iteration: the events it causes, in order, and the error that ended it, if one did.
  \<^verbatim>\<open>check\<close> records a boolean and returns; it never throws.
\<close>

definition iteration :: "'v runtime \<Rightarrow> event list \<times> k6_error option" where
  "iteration rt =
     (let login = http rt login_request;
          ev1 = [Http login_request, Check check_login (k6_status login = 200)]
      in case json rt login ''token'' of
           Inl err \<Rightarrow> (ev1, Some err)
         | Inr token \<Rightarrow>
             let headers = auth_headers rt token;
                 products = http rt (products_request headers);
                 ev2 = ev1 @ [Http (products_request headers),
                              Check check_products (k6_status products = 200)]
             in case json rt products ''items[0].id'' of
                  Inl err \<Rightarrow> (ev2, Some err)
                | Inr productId \<Rightarrow>
                    let cart = http rt (cart_request rt headers productId);
                        order = http rt (order_request rt headers)
                    in (ev2 @
                        [Http (cart_request rt headers productId),
                         Check check_cart (k6_status cart = 200),
                         Http (order_request rt headers),
                         Check check_order (k6_status order = 200 \<or> k6_status order = 201),
                         Sleep 1],
                        None))"

fun requests :: "event list \<Rightarrow> request list" where
  "requests [] = []"
| "requests (Http r # es) = r # requests es"
| "requests (e # es) = requests es"

text \<open>
  A runtime whose server answers every request with status 500 and an empty body: no
  check passes, and neither the token nor the product id is found.
\<close>

definition failing_runtime :: "unit runtime" where
  "failing_runtime =
     \<lparr>http = (\<lambda>req. \<lparr>k6_status = 500, k6_body = Some []\<rparr>),
      gjson = (\<lambda>text selector. None),
      to_text = (\<lambda>v. ''undefined''),
      stringify = (\<lambda>props. if props = [(''product_id'', Captured None), (''quantity'', NumLit 1)]
                           then ''{\"quantity\":1}''
                           else ''{\"payment\":\"TEST_MODE\",\"shipping\":\"EXPRESS\"}'')\<rparr>"

section \<open>Sample orders\<close>

definition order1 :: OrderRow where
  "order1 = \<lparr>order_id = Num 1, date = ''2024-03-15'', channel = site, status = shipped,
     amount = Num 10, customer = ''Ayse'', cargoProvider = None, cargoSlipPrintedAt = None\<rparr>"

definition order2 :: OrderRow where
  "order2 = \<lparr>order_id = Num 2, date = ''2024-03-14'', channel = trendyol, status = returned,
     amount = Num 20, customer = ''Mehmet'', cargoProvider = Some ''Aras'',
     cargoSlipPrintedAt = Some ''2024-03-14T09:30:00Z''\<rparr>"


text \<open>An order whose print timestamp is the empty string.\<close>

definition order_blank_slip :: OrderRow where
  "order_blank_slip = order1\<lparr>cargoSlipPrintedAt := Some []\<rparr>"

text \<open>
  Three orders of 1, \<open>2 ^ 53\<close> and 1: the first and the last share a channel and a day.
\<close>

definition big_orders :: "OrderRow list" where
  "big_orders =
     [order1\<lparr>amount := Num 1\<rparr>,
      order2\<lparr>amount := Num (2 ^ 53)\<rparr>,
      order1\<lparr>order_id := Num 3, amount := Num 1\<rparr>]"



section \<open>Properties of the number model\<close>

subsection \<open>The binary exponent\<close>

lemma ilog2_bounds:
  assumes "0 < q"
  shows "2 powi (ilog2 q) \<le> q \<and> q < 2 powi (ilog2 q + 1)"
proof -
  obtain a b where ab: "quotient_of q = (a, b)" by fastforce
  have b: "0 < b" using quotient_of_denom_pos [OF ab] .
  have q: "q = of_int a / of_int b" using quotient_of_div [OF ab] .
  have a: "0 < a" using assms q b by (simp add: zero_less_divide_iff)
  define la where "la = floorlog 2 (nat a)"
  define lb where "lb = floorlog 2 (nat b)"
  have na: "2 ^ (la - 1) \<le> nat a \<and> nat a < 2 ^ la"
    unfolding la_def using a by (intro floorlog_bounds) simp_all
  have nb: "2 ^ (lb - 1) \<le> nat b \<and> nat b < 2 ^ lb"
    unfolding lb_def using b by (intro floorlog_bounds) simp_all
  have la: "0 < la" using na a by (cases la) simp_all
  have lb: "0 < lb" using nb b by (cases lb) simp_all
  have a1: "(2::rat) ^ (la - 1) \<le> of_int a"
  proof -
    have "of_nat (2 ^ (la - 1)) \<le> (of_nat (nat a) :: rat)" using na by (simp only: of_nat_le_iff)
    then show ?thesis using a by simp
  qed
  have a2: "of_int a < (2::rat) ^ la"
  proof -
    have "(of_nat (nat a) :: rat) < of_nat (2 ^ la)" using na by (simp only: of_nat_less_iff)
    then show ?thesis using a by simp
  qed
  have b1: "(2::rat) ^ (lb - 1) \<le> of_int b"
  proof -
    have "of_nat (2 ^ (lb - 1)) \<le> (of_nat (nat b) :: rat)" using nb by (simp only: of_nat_le_iff)
    then show ?thesis using b by simp
  qed
  have b2: "of_int b < (2::rat) ^ lb"
  proof -
    have "(of_nat (nat b) :: rat) < of_nat (2 ^ lb)" using nb by (simp only: of_nat_less_iff)
    then show ?thesis using b by simp
  qed
  have bpos: "(0::rat) < of_int b" using b by simp
  have apos: "(0::rat) < of_int a" using a by simp
  have upper: "q < 2 ^ la / 2 ^ (lb - 1)"
    unfolding q using a2 b1 bpos apos by (intro frac_less) simp_all
  have lower: "2 ^ (la - 1) / 2 ^ lb < q"
    unfolding q using a1 b2 bpos apos by (intro frac_less2) simp_all
  define d where "d = int la - int lb"
  have pu: "(2::rat) powi (d + 1) = 2 ^ la / 2 ^ (lb - 1)"
  proof -
    have "d + 1 = int la - int (lb - 1)" using lb by (simp add: d_def)
    then show ?thesis by (simp add: power_int_diff)
  qed
  have pl: "(2::rat) powi (d - 1) = 2 ^ (la - 1) / 2 ^ lb"
  proof -
    have "d - 1 = int (la - 1) - int lb" using la by (simp add: d_def)
    then show ?thesis by (simp add: power_int_diff)
  qed
  have il: "ilog2 q = (if 2 powi d \<le> q then d else d - 1)"
    by (simp add: ilog2_def ab la_def lb_def d_def Let_def)
  show ?thesis
  proof (cases "2 powi d \<le> q")
    case True
    then show ?thesis using upper pu il by simp
  next
    case False
    then show ?thesis using lower pl il by simp
  qed
qed

lemma powi_less_cancel:
  assumes "(2::rat) powi m < 2 powi n"
  shows "m < n"
proof (rule ccontr)
  assume "\<not> m < n"
  then have "n \<le> m" by simp
  then have "(2::rat) powi n \<le> 2 powi m" by (intro power_int_increasing) simp_all
  with assms show False by simp
qed

lemma ilog2_eqI:
  assumes "2 powi e \<le> q" and "q < 2 powi (e + 1)"
  shows "ilog2 q = e"
proof -
  have "(0::rat) < 2 powi e" by simp
  then have q: "0 < q" using assms(1) by linarith
  note b = ilog2_bounds [OF q]
  have "(2::rat) powi e < 2 powi (ilog2 q + 1)" using assms(1) b by linarith
  then have 1: "e < ilog2 q + 1" by (rule powi_less_cancel)
  have "(2::rat) powi (ilog2 q) < 2 powi (e + 1)" using assms(2) b by linarith
  then have 2: "ilog2 q < e + 1" by (rule powi_less_cancel)
  from 1 2 show ?thesis by simp
qed


lemma round_even_of_int: "round_even (of_int n) = n"
  by (simp add: round_even_def)

lemma fl_eq:
  assumes "2 powi e \<le> \<bar>q\<bar>" and "\<bar>q\<bar> < 2 powi (e + 1)"
    and "u = 2 powi (max e (- 1022) - 52)"
    and "r = of_int (round_even (q / u)) * u"
    and "\<bar>r\<bar> < 2 ^ 1024"
  shows "fl q = Num r"
proof -
  have "(0::rat) < 2 powi e" by simp
  then have "0 < \<bar>q\<bar>" using assms(1) by linarith
  then have "q \<noteq> 0" by simp
  moreover have "ulp q = u" using assms(1,2,3) by (simp add: ulp_def ilog2_eqI)
  ultimately show ?thesis using assms(4,5) by (simp add: fl_def Let_def)
qed

lemma floor_numeral_div_rat:
  "\<lfloor>(numeral a :: rat) / numeral b\<rfloor> = numeral a div numeral b"
  using floor_divide_of_int_eq [where ?'a = rat, of "numeral a" "numeral b"] by simp


lemma fl_of_int:
  assumes "\<bar>k\<bar> \<le> 2 ^ 53"
  shows "fl (of_int k) = Num (of_int k)"
proof (cases "k = 0")
  case True
  then show ?thesis by (simp add: fl_def)
next
  case False
  define q :: rat where "q = of_int k"
  have q1: "1 \<le> \<bar>q\<bar>" using False by (simp add: q_def flip: of_int_abs)
  then have q0: "0 < \<bar>q\<bar>" by linarith
  define e where "e = ilog2 \<bar>q\<bar>"
  note b = ilog2_bounds [OF q0, folded e_def]
  have "(2::rat) powi 0 < 2 powi (e + 1)" using q1 b by simp
  then have e0: "0 \<le> e" using powi_less_cancel [of 0 "e + 1"] by simp
  have q53: "\<bar>q\<bar> \<le> 2 ^ 53"
  proof -
    have "rat_of_int \<bar>k\<bar> \<le> rat_of_int (2 ^ 53)" using assms by (simp only: of_int_le_iff)
    then show ?thesis by (simp add: q_def)
  qed
  have "(2::rat) powi e < 2 powi 54" using b q53 by simp
  then have e53: "e \<le> 53" using powi_less_cancel [of e 54] by simp
  define u :: rat where "u = 2 powi (max e (- 1022) - 52)"
  have u: "u = 2 powi (e - 52)" using e0 by (simp add: u_def max_def)
  have "\<exists>n. q / u = of_int n"
  proof (cases "e = 53")
    case True
    then have "2 ^ 53 \<le> \<bar>q\<bar>" using b by simp
    then have "\<bar>q\<bar> = 2 ^ 53" using q53 by simp
    then have "\<bar>rat_of_int k\<bar> = rat_of_int (2 ^ 53)" by (simp add: q_def)
    then have "\<bar>k\<bar> = 2 ^ 53" by (simp only: of_int_eq_iff flip: of_int_abs)
    then have "k = 2 ^ 53 \<or> k = - (2 ^ 53)" by linarith
    then have "q / u = of_int (2 ^ 52) \<or> q / u = of_int (- (2 ^ 52))"
      using True by (auto simp: q_def u)
    then show ?thesis by blast
  next
    case False
    then have "0 \<le> 52 - e" using e53 by simp
    then obtain m where m: "52 - e = int m" using nonneg_int_cases by blast
    have "u = 1 / 2 ^ m"
    proof -
      have "e - 52 = - int m" using m by simp
      then show ?thesis by (simp add: u power_int_minus inverse_eq_divide)
    qed
    then have "q / u = of_int (k * 2 ^ m)" by (simp add: q_def)
    then show ?thesis by blast
  qed
  then obtain n where n: "q / u = of_int n" by blast
  have upos: "u \<noteq> 0" by (simp add: u)
  have r: "of_int (round_even (q / u)) * u = q"
  proof -
    have "of_int (round_even (q / u)) = q / u" by (simp only: n round_even_of_int)
    then show ?thesis using upos by simp
  qed
  have "fl q = Num (of_int (round_even (q / u)) * u)"
  proof (rule fl_eq [where e = e and u = u])
    show "2 powi e \<le> \<bar>q\<bar>" using b by simp
    show "\<bar>q\<bar> < 2 powi (e + 1)" using b by simp
    show "u = 2 powi (max e (- 1022) - 52)" by (simp add: u_def)
    show "of_int (round_even (q / u)) * u = of_int (round_even (q / u)) * u" by simp
    have "\<bar>q\<bar> < 2 ^ 1024" using q53 by (rule order_le_less_trans) simp
    then show "\<bar>of_int (round_even (q / u)) * u\<bar> < 2 ^ 1024" by (simp only: r)
  qed
  then show ?thesis by (simp only: r) (simp add: q_def)
qed

lemma fl_numeral:
  assumes "(numeral k :: int) \<le> 2 ^ 53"
  shows "fl (numeral k) = Num (numeral k)"
  using fl_of_int [of "numeral k"] assms by simp

lemma fl_of_nat:
  assumes "n \<le> 2 ^ 53"
  shows "fl (of_nat n) = Num (of_nat n)"
proof -
  have "int n \<le> int (2 ^ 53)" using assms by (simp only: of_nat_le_iff)
  then show ?thesis using fl_of_int [of "int n"] by simp
qed

lemma fl_0: "fl 0 = Num 0"
  by (simp add: fl_def)

lemma fl_1: "fl 1 = Num 1"
  using fl_of_int [of 1] by simp

lemma fl_half: "fl (1 / 2) = Num (1 / 2)"
  by (rule fl_eq [where e = "- 1" and u = "1 / 2 ^ 53"])
     (simp_all add: round_even_def Let_def power_int_minus floor_numeral_div_rat)

lemma fl_odd_above: "fl 9007199254740993 = Num 9007199254740992"
  by (rule fl_eq [where e = 53 and u = 2])
     (simp_all add: round_even_def Let_def floor_numeral_div_rat)

lemma fl_even_above: "fl 9007199254740994 = Num 9007199254740994"
  by (rule fl_eq [where e = 53 and u = 2])
     (simp_all add: round_even_def Let_def floor_numeral_div_rat)

section \<open>Properties of the reducers\<close>

subsection \<open>Counting per channel and per status\<close>

lemma foldl_channel_step_channel:
  "cb_channel (foldl channel_step m os c) = cb_channel (m c)"
  by (induction os arbitrary: m) (simp_all add: channel_step_def)

lemma foldl_channel_step_count:
  "cb_count (foldl channel_step m os c) =
   cb_count (m c) + length (filter (\<lambda>row. channel row = c) os)"
  by (induction os arbitrary: m) (simp_all add: channel_step_def)

lemma channel_partition_length:
  "(\<Sum>c\<leftarrow>channelOrder. length (filter (\<lambda>row. channel row = c) os)) = length os"
proof (induction os)
  case Nil
  show ?case by (simp add: channelOrder_def)
next
  case (Cons r os)
  then show ?case by (cases "channel r") (simp_all add: channelOrder_def)
qed

text \<open>
  Claim C9. For every order list, \<^verbatim>\<open>byChannel\<close> returns exactly five buckets, one per
  channel, in the order hepsiburada, trendyol, ticimax, site, other, and the bucket
  counts add up to the number of orders.
\<close>

theorem byChannel_buckets:
  "map cb_channel (byChannel os) = [hepsiburada, trendyol, ticimax, site, other] \<and>
   sum_list (map cb_count (byChannel os)) = length os"
proof
  show "map cb_channel (byChannel os) = [hepsiburada, trendyol, ticimax, site, other]"
    by (simp add: byChannel_def channelOrder_def foldl_channel_step_channel channel_map0_def)
  have "sum_list (map cb_count (byChannel os)) =
        (\<Sum>c\<leftarrow>channelOrder. length (filter (\<lambda>row. channel row = c) os))"
    by (simp add: byChannel_def comp_def foldl_channel_step_count channel_map0_def)
  then show "sum_list (map cb_count (byChannel os)) = length os"
    by (simp only: channel_partition_length)
qed

lemma foldl_status_step:
  "foldl status_step m os k = m k + length (filter (\<lambda>row. status row = k) os)"
  by (induction os arbitrary: m) (simp_all add: status_step_def)

lemma status_partition_length:
  "(\<Sum>k\<leftarrow>status_keys. length (filter (\<lambda>row. status row = k) os)) = length os"
proof (induction os)
  case Nil
  show ?case by (simp add: status_keys_def)
next
  case (Cons r os)
  then show ?case by (cases "status r") (simp_all add: status_keys_def)
qed

lemma foldl_plus_sum_list: "foldl (\<lambda>s d. s + f d) a xs = (a::nat) + sum_list (map f xs)"
  by (induction xs arbitrary: a) simp_all

lemma status_data_total:
  "sum_list (map sb_value (status_data os)) = length os"
proof -
  have "sum_list (map sb_value (status_data os)) =
        (\<Sum>k\<leftarrow>status_keys. length (filter (\<lambda>row. status row = k) os))"
    by (simp add: status_data_def comp_def foldl_status_step)
  then show ?thesis by (simp only: status_partition_length)
qed

lemma byStatus_eq:
  "byStatus os = (if os = [] then [\<lparr>sb_status = pending, sb_value = 1\<rparr>] else status_data os)"
proof -
  have "foldl (\<lambda>s d. s + sb_value d) 0 (status_data os) = length os"
    by (simp add: foldl_plus_sum_list status_data_total)
  then show ?thesis
    by (simp add: byStatus_def Let_def status_data_def [symmetric])
qed

text \<open>
  Claim C2. For a non-empty order list \<^verbatim>\<open>byStatus\<close> returns the six status buckets,
  whose counts add up to the number of orders; it returns the single synthetic bucket
  \<^verbatim>\<open>{status: 'pending', value: 1}\<close> if and only if the list is empty.
\<close>

theorem byStatus_buckets:
  "(os \<noteq> [] \<longrightarrow>
      map sb_status (byStatus os) = [pending, processing, shipped, delivered, cancelled, returned] \<and>
      sum_list (map sb_value (byStatus os)) = length os) \<and>
   (byStatus os = [\<lparr>sb_status = pending, sb_value = 1\<rparr>] \<longleftrightarrow> os = [])"
proof (cases "os = []")
  case True
  then show ?thesis by (simp add: byStatus_eq)
next
  case False
  have "map sb_status (status_data os) = status_keys"
    by (simp add: status_data_def comp_def)
  moreover have "length (status_data os) = 6"
    by (simp add: status_data_def status_keys_def)
  then have "status_data os \<noteq> [\<lparr>sb_status = pending, sb_value = 1\<rparr>]"
    by auto
  ultimately show ?thesis using False
    by (simp add: byStatus_eq status_data_total status_keys_def)
qed

theorem byStatus_buckets_witness:
  "[order1] \<noteq> [] \<and>
   map sb_status (byStatus [order1]) = [pending, processing, shipped, delivered, cancelled, returned] \<and>
   sum_list (map sb_value (byStatus [order1])) = 1 \<and>
   byStatus [order1] \<noteq> [\<lparr>sb_status = pending, sb_value = 1\<rparr>]"
  using byStatus_buckets [of "[order1]"] by simp

subsection \<open>Totals\<close>

text \<open>
  Claim C4, as it stands, counts every order whose \<^verbatim>\<open>cargoSlipPrintedAt\<close> is not null. For
  the one order whose timestamp is the empty string that rate would be 100, and
  \<^verbatim>\<open>totals\<close> returns 0: the filter \<^verbatim>\<open>!!o.cargoSlipPrintedAt\<close> keeps truthy values only.
\<close>

theorem totals_nonnull_slip_counterexample:
  "cargoSlipPrintedAt order_blank_slip \<noteq> None \<and>
   onTimeRate (totals [order_blank_slip]) = Num 0 \<and>
   num_mul (num_div
      (of_count (length (filter (\<lambda>row. cargoSlipPrintedAt row \<noteq> None) [order_blank_slip])))
      (of_count (length [order_blank_slip]))) (Num 100) = Num 100"
  by (simp add: order_blank_slip_def order1_def totals_def truthy_def of_count_def
        sum_amount_def Let_def fl_0 fl_1 fl_numeral)

text \<open>
  Claim C4, amended. With no orders, \<^verbatim>\<open>avgBasket\<close>, \<^verbatim>\<open>returnedRate\<close> and
  \<^verbatim>\<open>onTimeRate\<close> are 0. With \<open>n > 0\<close> orders, \<^verbatim>\<open>avgBasket\<close> is the quotient
  \<^verbatim>\<open>totalAmount / n\<close>, \<^verbatim>\<open>returnedRate\<close> is \<^verbatim>\<open>(returned / n) * 100\<close> for the number of
  returned orders, and \<^verbatim>\<open>onTimeRate\<close> is \<^verbatim>\<open>(printed / n) * 100\<close> for the number of
  orders whose \<^verbatim>\<open>cargoSlipPrintedAt\<close> is truthy: neither null nor the empty string.
\<close>

theorem totals_rates:
  "orderCount (totals os) = length os \<and>
   totalAmount (totals os) = foldl (\<lambda>s row. num_add s (amount row)) (Num 0) os \<and>
   (length os = 0 \<longrightarrow>
      avgBasket (totals os) = Num 0 \<and> returnedRate (totals os) = Num 0 \<and>
      onTimeRate (totals os) = Num 0) \<and>
   (0 < length os \<longrightarrow>
      avgBasket (totals os) = num_div (totalAmount (totals os)) (of_count (length os)) \<and>
      returnedRate (totals os) =
        num_mul (num_div (of_count (length (filter (\<lambda>row. status row = returned) os)))
                         (of_count (length os))) (Num 100) \<and>
      onTimeRate (totals os) =
        num_mul (num_div (of_count (length (filter (\<lambda>row. truthy (cargoSlipPrintedAt row)) os)))
                         (of_count (length os))) (Num 100))"
  by (simp add: totals_def Let_def sum_amount_def)

theorem totals_rates_witness:
  "0 < length [order1, order2] \<and>
   totalAmount (totals [order1, order2]) = Num 30 \<and>
   avgBasket (totals [order1, order2]) = Num 15 \<and>
   returnedRate (totals [order1, order2]) = Num 50 \<and>
   onTimeRate (totals [order1, order2]) = Num 50 \<and>
   length ([] :: OrderRow list) = 0 \<and>
   avgBasket (totals []) = Num 0 \<and> returnedRate (totals []) = Num 0 \<and>
   onTimeRate (totals []) = Num 0"
  using totals_rates [of "[order1, order2]"] totals_rates [of "[]"]
  by (simp add: order1_def order2_def truthy_def of_count_def Let_def fl_0 fl_1 fl_half fl_numeral)

subsection \<open>The order fetcher\<close>



subsection \<open>CSV export\<close>



















subsection \<open>Amounts per channel\<close>

lemma whole_units: "whole x \<Longrightarrow> x = Num (of_nat (units x))"
  by (cases x) (auto simp: whole_def units_def)

lemma num_add_of_nat:
  assumes "a + n \<le> 2 ^ 53"
  shows "num_add (Num (of_nat a)) (Num (of_nat n)) = Num (of_nat (a + n))"
  using fl_of_nat [OF assms] by simp

lemma foldl_amount_exact:
  assumes "\<forall>row\<in>set os. whole (amount row)"
    and "a + (\<Sum>row\<leftarrow>os. units (amount row)) \<le> 2 ^ 53"
  shows "foldl (\<lambda>s row. num_add s (amount row)) (Num (of_nat a)) os =
         Num (of_nat (a + (\<Sum>row\<leftarrow>os. units (amount row))))"
  using assms
proof (induction os arbitrary: a)
  case Nil
  then show ?case by simp
next
  case (Cons r os)
  have r: "amount r = Num (of_nat (units (amount r)))"
    using Cons.prems(1) by (simp add: whole_units [symmetric])
  have b: "a + units (amount r) \<le> 2 ^ 53" using Cons.prems(2) by simp
  have "foldl (\<lambda>s row. num_add s (amount row)) (Num (of_nat a)) (r # os) =
        foldl (\<lambda>s row. num_add s (amount row)) (Num (of_nat (a + units (amount r)))) os"
    using num_add_of_nat [OF b] r by simp
  also have "\<dots> = Num (of_nat (a + units (amount r) + (\<Sum>row\<leftarrow>os. units (amount row))))"
    using Cons.prems by (intro Cons.IH) (simp_all add: add.assoc)
  finally show ?case by (simp add: add.assoc)
qed

lemma sum_numbers_exact:
  assumes "sum_list ns \<le> 2 ^ 53"
  shows "sum_numbers (map (\<lambda>n. Num (of_nat n)) ns) = Num (of_nat (sum_list ns))"
proof -
  have "a + sum_list ns \<le> 2 ^ 53 \<Longrightarrow>
        foldl num_add (Num (of_nat a)) (map (\<lambda>n. Num (of_nat n)) ns) = Num (of_nat (a + sum_list ns))"
    for a
  proof (induction ns arbitrary: a)
    case Nil
    then show ?case by simp
  next
    case (Cons n ns)
    have b: "a + n \<le> 2 ^ 53" using Cons.prems by simp
    show ?case using Cons.IH [of "a + n"] Cons.prems num_add_of_nat [OF b]
      by (simp add: add.assoc)
  qed
  from this [of 0] assms show ?thesis by (simp add: sum_numbers_def)
qed

lemma channel_amount_exact:
  assumes "\<forall>row\<in>set os. whole (amount row)"
    and "cb_amount (m c) = Num (of_nat a)"
    and "a + (\<Sum>row\<leftarrow>filter (\<lambda>row. channel row = c) os. units (amount row)) \<le> 2 ^ 53"
  shows "cb_amount (foldl channel_step m os c) =
         Num (of_nat (a + (\<Sum>row\<leftarrow>filter (\<lambda>row. channel row = c) os. units (amount row))))"
  using assms
proof (induction os arbitrary: m a)
  case Nil
  then show ?case by simp
next
  case (Cons r os)
  show ?case
  proof (cases "channel r = c")
    case True
    have r: "amount r = Num (of_nat (units (amount r)))"
      using Cons.prems(1) by (simp add: whole_units [symmetric])
    have b: "a + units (amount r) \<le> 2 ^ 53" using Cons.prems(3) True by simp
    have "cb_amount (channel_step m r c) = Num (of_nat (a + units (amount r)))"
      using True Cons.prems(2) num_add_of_nat [OF b] r by (simp add: channel_step_def)
    then have "cb_amount (foldl channel_step (channel_step m r) os c) =
        Num (of_nat (a + units (amount r) +
          (\<Sum>row\<leftarrow>filter (\<lambda>row. channel row = c) os. units (amount row))))"
      using Cons.prems True by (intro Cons.IH) (simp_all add: add.assoc)
    then show ?thesis using True by (simp add: add.assoc)
  next
    case False
    have "cb_amount (channel_step m r c) = Num (of_nat a)"
      using False Cons.prems(2) by (simp add: channel_step_def)
    then have "cb_amount (foldl channel_step (channel_step m r) os c) =
        Num (of_nat (a + (\<Sum>row\<leftarrow>filter (\<lambda>row. channel row = c) os. units (amount row))))"
      using Cons.prems False by (intro Cons.IH) simp_all
    then show ?thesis using False by simp
  qed
qed

lemma channel_partition_sum:
  "(\<Sum>c\<leftarrow>channelOrder. \<Sum>row\<leftarrow>filter (\<lambda>row. channel row = c) os. f row) =
   (\<Sum>row\<leftarrow>os. (f row :: nat))"
proof (induction os)
  case Nil
  show ?case by (simp add: channelOrder_def)
next
  case (Cons r os)
  then show ?case by (cases "channel r") (simp_all add: channelOrder_def)
qed

lemma filter_units_le:
  "(\<Sum>row\<leftarrow>filter P os. units (amount row)) \<le> (\<Sum>row\<leftarrow>os. units (amount row))"
  by (induction os) simp_all

text \<open>
  Claim C3, amended. For every order list whose amounts are non-negative integers with a
  total of at most \<open>2 ^ 53\<close>, so that no addition rounds, the amounts of the five
  \<^verbatim>\<open>byChannel\<close> buckets add up to \<^verbatim>\<open>totals.totalAmount\<close>.
\<close>

theorem byChannel_amounts_exact:
  assumes "\<forall>row\<in>set os. whole (amount row)"
    and "(\<Sum>row\<leftarrow>os. units (amount row)) \<le> 2 ^ 53"
  shows "sum_numbers (map cb_amount (byChannel os)) = totalAmount (totals os)"
proof -
  let ?u = "\<lambda>c. \<Sum>row\<leftarrow>filter (\<lambda>row. channel row = c) os. units (amount row)"
  have c: "cb_amount (foldl channel_step channel_map0 os c) = Num (of_nat (?u c))" for c
  proof -
    have "?u c \<le> 2 ^ 53" using filter_units_le [of _ os] assms(2) by (rule order_trans)
    then show ?thesis
      using channel_amount_exact [OF assms(1), of channel_map0 c 0]
      by (simp add: channel_map0_def)
  qed
  have "map cb_amount (byChannel os) = map (\<lambda>n. Num (of_nat n)) (map ?u channelOrder)"
    by (simp add: byChannel_def c)
  moreover have "sum_list (map ?u channelOrder) = (\<Sum>row\<leftarrow>os. units (amount row))"
    by (rule channel_partition_sum)
  ultimately have "sum_numbers (map cb_amount (byChannel os)) =
      Num (of_nat (\<Sum>row\<leftarrow>os. units (amount row)))"
    using sum_numbers_exact [of "map ?u channelOrder"] assms(2) by simp
  moreover have "totalAmount (totals os) = Num (of_nat (\<Sum>row\<leftarrow>os. units (amount row)))"
    using foldl_amount_exact [OF assms(1), of 0] assms(2)
    by (simp add: totals_def Let_def sum_amount_def)
  ultimately show ?thesis by simp
qed

text \<open>
  Claim C3, as it stands, is about every order list. Amounts are binary64 numbers and their
  addition rounds, so the result depends on the order of the additions: for orders of
  1, \<open>2 ^ 53\<close> and 1, the first and last on one channel, \<^verbatim>\<open>totals\<close> adds
  \<open>(1 + 2 ^ 53) + 1\<close> and loses both units, while the buckets hold \<open>1 + 1\<close> and
  \<open>2 ^ 53\<close>, whose sum is exact.
\<close>

theorem byChannel_amounts_counterexample:
  "list_all (\<lambda>row. is_double (amount row)) big_orders \<and>
   sum_numbers (map cb_amount (byChannel big_orders)) = Num 9007199254740994 \<and>
   totalAmount (totals big_orders) = Num 9007199254740992"
  by (simp add: big_orders_def order1_def order2_def is_double_def byChannel_def channelOrder_def
      channel_step_def channel_map0_def sum_numbers_def totals_def sum_amount_def Let_def
      fl_0 fl_1 fl_numeral fl_odd_above fl_even_above)

theorem byChannel_amounts_exact_witness:
  "(\<forall>row\<in>set [order1, order2]. whole (amount row)) \<and>
   (\<Sum>row\<leftarrow>[order1, order2]. units (amount row)) \<le> 2 ^ 53 \<and>
   sum_numbers (map cb_amount (byChannel [order1, order2])) = Num 30 \<and>
   totalAmount (totals [order1, order2]) = Num 30"
proof -
  have 1: "\<forall>row\<in>set [order1, order2]. whole (amount row)"
    by (simp add: order1_def order2_def whole_def)
  have 2: "(\<Sum>row\<leftarrow>[order1, order2]. units (amount row)) \<le> 2 ^ 53"
    by (simp add: order1_def order2_def units_def)
  have 3: "totalAmount (totals [order1, order2]) = Num 30"
    by (simp add: order1_def order2_def totals_def sum_amount_def Let_def fl_numeral)
  show ?thesis using byChannel_amounts_exact [OF 1 2] 1 2 3 by simp
qed

subsection \<open>The time series\<close>

lemma prototype_key_length: "s \<in> set object_prototype_keys \<Longrightarrow> length s \<noteq> 10"
  by (auto simp: object_prototype_keys_def)

lemma iso_date_not_prototype: "iso_date s \<Longrightarrow> s \<notin> set object_prototype_keys"
  using prototype_key_length [of s] unfolding iso_date_def by blast

lemma iso_date_not_index:
  assumes "iso_date s"
  shows "array_index s = None"
proof -
  have l: "length s = 10" and h: "s ! 4 = CHR ''-''"
    using assms unfolding iso_date_def by blast+
  have "s ! 4 \<in> set s" using l by (intro nth_mem) simp
  then have m: "CHR ''-'' \<in> set s" using h by simp
  have n: "\<not> list_all (\<lambda>c. c \<in> set ''0123456789'') s"
  proof
    assume "list_all (\<lambda>c. c \<in> set ''0123456789'') s"
    then have "\<forall>c\<in>set s. c \<in> set ''0123456789''" by (simp only: list_all_iff)
    with m have "CHR ''-'' \<in> set ''0123456789''" by blast
    then show False by simp
  qed
  show ?thesis unfolding array_index_def by (rule if_not_P) (use n in blast)
qed

lemma map_of_map_values:
  "map_of (map (\<lambda>(k, v). if k = a then (k, f v) else (k, v)) xs) k =
   (if k = a then map_option f (map_of xs k) else map_of xs k)"
  by (induction xs) auto

lemma map_fst_map_values:
  "map fst (map (\<lambda>(k, v). if k = a then (k, f v) else (k, v)) xs) = map fst xs"
  by (induction xs) auto

lemma time_step_keys:
  assumes "date row \<notin> set object_prototype_keys"
  shows "map fst (time_step b row) =
         (if date row \<in> set (map fst b) then map fst b else map fst b @ [date row])"
  using assms
  by (auto simp: time_step_def Let_def map_fst_map_values map_of_eq_None_iff)

lemma time_step_lookup:
  assumes "date row \<notin> set object_prototype_keys"
  shows "map_of (time_step b row) k =
         (if k = date row
          then Some (add_row (case map_of b k of None \<Rightarrow> zero_bucket k | Some d \<Rightarrow> d) row)
          else map_of b k)"
  using assms
  by (auto simp: time_step_def Let_def map_of_map_values zero_bucket_def map_add_def
           split: option.splits)

lemma foldl_time_step_keys:
  assumes "\<forall>row\<in>set os. date row \<notin> set object_prototype_keys" and "distinct (map fst b)"
  shows "distinct (map fst (foldl time_step b os)) \<and>
         set (map fst (foldl time_step b os)) = set (map fst b) \<union> date ` set os"
  using assms
proof (induction os arbitrary: b)
  case Nil
  then show ?case by simp
next
  case (Cons r os)
  have k: "map fst (time_step b r) =
      (if date r \<in> set (map fst b) then map fst b else map fst b @ [date r])"
    using Cons.prems(1) by (intro time_step_keys) simp
  then have d: "distinct (map fst (time_step b r))" using Cons.prems(2) by simp
  have "\<forall>row\<in>set os. date row \<notin> set object_prototype_keys" using Cons.prems(1) by simp
  from Cons.IH [OF this d] show ?case using k by (auto split: if_splits)
qed

lemma foldl_time_step_lookup:
  assumes "\<forall>row\<in>set os. date row \<notin> set object_prototype_keys"
  shows "map_of (foldl time_step b os) k =
         (case map_of b k of
            Some d \<Rightarrow> Some (foldl add_row d (filter (\<lambda>row. date row = k) os))
          | None \<Rightarrow> if k \<in> date ` set os
                    then Some (foldl add_row (zero_bucket k) (filter (\<lambda>row. date row = k) os))
                    else None)"
  using assms
proof (induction os arbitrary: b)
  case Nil
  then show ?case by (simp split: option.splits)
next
  case (Cons r os)
  have r: "date r \<notin> set object_prototype_keys" using Cons.prems by simp
  have os: "\<forall>row\<in>set os. date row \<notin> set object_prototype_keys" using Cons.prems by simp
  show ?case
    using Cons.IH [OF os, of "time_step b r"] time_step_lookup [OF r, of b k]
    by (auto split: option.splits)
qed

lemma foldl_add_row:
  "db_date (foldl add_row d rows) = db_date d \<and>
   db_count (foldl add_row d rows) = db_count d + length rows \<and>
   db_amount (foldl add_row d rows) = foldl (\<lambda>s row. num_add s (amount row)) (db_amount d) rows"
  by (induction rows arbitrary: d) (simp_all add: add_row_def)

text \<open>The bucket object after the loop, as a list of keys and values.\<close>

lemma bucket_entries:
  assumes "\<forall>row\<in>set os. date row \<notin> set object_prototype_keys"
    and "(k, d) \<in> set (foldl time_step [] os)"
  shows "k \<in> date ` set os \<and> db_date d = k \<and>
         db_count d = length (filter (\<lambda>row. date row = k) os) \<and>
         db_amount d = sum_amount (filter (\<lambda>row. date row = k) os)"
proof -
  have dk: "distinct (map fst (foldl time_step [] os))"
    and ks: "set (map fst (foldl time_step [] os)) = date ` set os"
    using foldl_time_step_keys [OF assms(1), of "[]"] by simp_all
  have k: "k \<in> date ` set os" using assms(2) ks by force
  have "map_of (foldl time_step [] os) k = Some d"
    using dk assms(2) by (rule map_of_is_SomeI)
  then have "d = foldl add_row (zero_bucket k) (filter (\<lambda>row. date row = k) os)"
    using foldl_time_step_lookup [OF assms(1), of "[]" k] k by simp
  then show ?thesis using k foldl_add_row [of "zero_bucket k"]
    by (simp add: zero_bucket_def sum_amount_def)
qed

lemma object_values_no_index:
  assumes "\<forall>(k, v)\<in>set obj. array_index k = None"
  shows "object_values obj = map snd obj"
proof -
  have "filter (\<lambda>(k, v). array_index k \<noteq> None) obj = []"
    using assms by (auto simp: filter_empty_conv)
  moreover have "filter (\<lambda>(k, v). array_index k = None) obj = obj"
    using assms by (auto simp: filter_id_conv)
  ultimately show ?thesis by (simp add: object_values_def)
qed

lemma set_insert_by: "set (insert_by cmp x ys) = insert x (set ys)"
  by (induction ys) auto

lemma sum_list_insert_by:
  "sum_list (map f (insert_by cmp x ys)) = (f x :: nat) + sum_list (map f ys)"
  by (induction ys) simp_all

lemma distinct_insert_by:
  "distinct (map f (insert_by cmp x ys)) \<longleftrightarrow> f x \<notin> f ` set ys \<and> distinct (map f ys)"
  by (induction ys) (auto simp: set_insert_by)

lemma sorted_insert_by:
  assumes "sorted (map key ys)"
    and "\<forall>y\<in>set ys. cmp x y < 0 \<longleftrightarrow> key x < key y"
  shows "sorted (map key (insert_by cmp x ys))"
  using assms
proof (induction ys)
  case Nil
  then show ?case by simp
next
  case (Cons y ys)
  show ?case
  proof (cases "cmp x y < 0")
    case True
    then have "key x < key y" using Cons.prems(2) by simp
    then show ?thesis using True Cons.prems(1) by (auto simp: less_imp_le)
  next
    case False
    then have "key y \<le> key x" using Cons.prems(2) by auto
    moreover have "sorted (map key (insert_by cmp x ys))"
      using Cons.prems by (intro Cons.IH) simp_all
    ultimately show ?thesis using False Cons.prems(1) by (auto simp: set_insert_by)
  qed
qed

lemma foldl_insert_by:
  "set (foldl (\<lambda>acc x. insert_by cmp x acc) acc xs) = set acc \<union> set xs \<and>
   sum_list (map f (foldl (\<lambda>acc x. insert_by cmp x acc) acc xs)) =
     sum_list (map f acc) + (sum_list (map f xs) :: nat)"
  by (induction xs arbitrary: acc) (simp_all add: set_insert_by sum_list_insert_by)

lemma foldl_insert_by_distinct:
  "distinct (map g (foldl (\<lambda>acc x. insert_by cmp x acc) acc xs)) \<longleftrightarrow> distinct (map g (acc @ xs))"
proof (induction xs arbitrary: acc)
  case Nil
  show ?case by simp
next
  case (Cons x xs)
  show ?case
    by (simp add: Cons.IH distinct_insert_by set_insert_by) auto
qed

lemma foldl_insert_by_sorted:
  assumes "sorted (map key acc)"
    and "\<forall>x\<in>set acc \<union> set xs. \<forall>y\<in>set acc \<union> set xs. cmp x y < 0 \<longleftrightarrow> key x < key y"
  shows "sorted (map key (foldl (\<lambda>acc x. insert_by cmp x acc) acc xs))"
  using assms
proof (induction xs arbitrary: acc)
  case Nil
  then show ?case by simp
next
  case (Cons x xs)
  have "sorted (map key (insert_by cmp x acc))"
    using Cons.prems by (intro sorted_insert_by) simp_all
  then show ?case using Cons.prems by (simp add: Cons.IH set_insert_by)
qed

lemma sort_by_props:
  "set (sort_by cmp xs) = set xs"
  "sum_list (map f (sort_by cmp xs)) = (sum_list (map f xs) :: nat)"
  "distinct (map g (sort_by cmp xs)) \<longleftrightarrow> distinct (map g xs)"
  using foldl_insert_by [of cmp "[]" xs f] foldl_insert_by_distinct [of g cmp "[]" xs]
  by (simp_all add: sort_by_def)

lemma sort_by_map_set: "set (map g (sort_by cmp xs)) = set (map g xs)"
  by (simp add: sort_by_props(1))

lemma sort_by_sorted:
  assumes "\<forall>x\<in>set xs. \<forall>y\<in>set xs. cmp x y < 0 \<longleftrightarrow> key x < key y"
  shows "sorted (map key (sort_by cmp xs))"
  using foldl_insert_by_sorted [of key "[]" xs cmp] assms by (simp add: sort_by_def)


lemma sum_list_delta:
  assumes "distinct ks" and "a \<in> set ks"
  shows "(\<Sum>k\<leftarrow>ks. if a = k then v else 0) = (v :: nat)"
  using assms by (induction ks) auto

lemma partition_sum:
  assumes "distinct ks" and "f ` set xs \<subseteq> set ks"
  shows "(\<Sum>k\<leftarrow>ks. \<Sum>x\<leftarrow>filter (\<lambda>x. f x = k) xs. g x) = (\<Sum>x\<leftarrow>xs. (g x :: nat))"
  using assms(2)
proof (induction xs)
  case Nil
  show ?case by simp
next
  case (Cons x xs)
  have "(\<Sum>k\<leftarrow>ks. \<Sum>y\<leftarrow>filter (\<lambda>y. f y = k) (x # xs). g y) =
        (\<Sum>k\<leftarrow>ks. (if f x = k then g x else 0) + (\<Sum>y\<leftarrow>filter (\<lambda>y. f y = k) xs. g y))"
    by (intro arg_cong [where f = sum_list] map_cong) simp_all
  also have "\<dots> = (\<Sum>k\<leftarrow>ks. if f x = k then g x else 0) +
        (\<Sum>k\<leftarrow>ks. \<Sum>y\<leftarrow>filter (\<lambda>y. f y = k) xs. g y)"
    by (simp add: sum_list_addf)
  also have "\<dots> = g x + (\<Sum>y\<leftarrow>xs. g y)"
    using Cons sum_list_delta [OF assms(1), of "f x" "g x"] by simp
  finally show ?case by simp
qed

lemma partition_length:
  assumes "distinct ks" and "f ` set xs \<subseteq> set ks"
  shows "(\<Sum>k\<leftarrow>ks. length (filter (\<lambda>x. f x = k) xs)) = length xs"
  using assms(2)
proof (induction xs)
  case Nil
  show ?case by simp
next
  case (Cons x xs)
  have "(\<Sum>k\<leftarrow>ks. length (filter (\<lambda>y. f y = k) (x # xs))) =
        (\<Sum>k\<leftarrow>ks. (if f x = k then 1 else 0) + length (filter (\<lambda>y. f y = k) xs))"
    by (intro arg_cong [where f = sum_list] map_cong) simp_all
  also have "\<dots> = (\<Sum>k\<leftarrow>ks. if f x = k then 1 else 0) +
        (\<Sum>k\<leftarrow>ks. length (filter (\<lambda>y. f y = k) xs))"
    by (simp add: sum_list_addf)
  also have "\<dots> = 1 + length xs"
    using Cons sum_list_delta [OF assms(1), of "f x" 1] by simp
  finally show ?case by simp
qed

lemma units_of_nat: "units (Num (of_nat n)) = n"
  by (simp add: units_def)

text \<open>What \<^verbatim>\<open>timeSeries\<close> returns for calendar days: the sorted values of the object.\<close>

lemma timeSeries_iso:
  assumes "\<forall>row\<in>set os. iso_date (date row)"
  shows "timeSeries cmp os =
         sort_by (\<lambda>a b. cmp (db_date a) (db_date b)) (map snd (foldl time_step [] os))"
proof -
  have np: "\<forall>row\<in>set os. date row \<notin> set object_prototype_keys"
    using assms iso_date_not_prototype by blast
  have "\<forall>(k, v)\<in>set (foldl time_step [] os). array_index k = None"
    using bucket_entries [OF np] assms iso_date_not_index by fastforce
  then show ?thesis by (simp add: timeSeries_def object_values_no_index)
qed

text \<open>
  Claim C7. For every list of orders dated by calendar day, where the collation of the
  browser orders calendar days as their code units do, \<^verbatim>\<open>timeSeries\<close> returns one bucket
  per day that occurs: its amount is the sum of the amounts of the orders of that day, in
  their order, its count is the number of those orders, and the buckets come with their
  dates in non-decreasing lexicographic order.
\<close>

theorem timeSeries_groups_sorted:
  assumes "\<forall>row\<in>set os. iso_date (date row)" and "collates_days cmp"
  shows "sorted (map db_date (timeSeries cmp os)) \<and>
         set (map db_date (timeSeries cmp os)) = date ` set os \<and>
         (\<forall>d\<in>set (timeSeries cmp os).
            db_amount d = sum_amount (filter (\<lambda>row. date row = db_date d) os) \<and>
            db_count d = length (filter (\<lambda>row. date row = db_date d) os))"
proof -
  let ?b = "foldl time_step [] os"
  let ?c = "\<lambda>a b. cmp (db_date a) (db_date b)"
  have np: "\<forall>row\<in>set os. date row \<notin> set object_prototype_keys"
    using assms(1) iso_date_not_prototype by blast
  note e = bucket_entries [OF np]
  have ts: "timeSeries cmp os = sort_by ?c (map snd ?b)" by (rule timeSeries_iso [OF assms(1)])
  have mem: "\<exists>k. (k, d) \<in> set ?b" if "d \<in> set (timeSeries cmp os)" for d
    using that by (auto simp: ts sort_by_props(1))
  have iso: "iso_date (db_date d)" if "d \<in> set (map snd ?b)" for d
    using that e assms(1) by fastforce
  have "\<forall>x\<in>set (map snd ?b). \<forall>y\<in>set (map snd ?b). ?c x y < 0 \<longleftrightarrow> db_date x < db_date y"
    using iso assms(2) unfolding collates_days_def by blast
  then have 1: "sorted (map db_date (timeSeries cmp os))"
    unfolding ts by (rule sort_by_sorted)
  have dd: "map (db_date \<circ> snd) ?b = map fst ?b" using e by (auto simp: map_eq_conv)
  have ks: "set (map fst ?b) = date ` set os"
    using foldl_time_step_keys [OF np, of "[]"] by simp
  have 2: "set (map db_date (timeSeries cmp os)) = date ` set os"
    unfolding ts sort_by_map_set map_map dd by (rule ks)
  have 3: "db_amount d = sum_amount (filter (\<lambda>row. date row = db_date d) os) \<and>
           db_count d = length (filter (\<lambda>row. date row = db_date d) os)"
    if "d \<in> set (timeSeries cmp os)" for d
    using mem [OF that] e by auto
  from 1 2 3 show ?thesis by blast
qed

text \<open>
  Claim C10, amended. For every list of orders dated by calendar day, the dates of the
  \<^verbatim>\<open>timeSeries\<close> buckets are pairwise distinct and the bucket counts add up to
  \<^verbatim>\<open>totals.orderCount\<close>; when moreover the amounts are non-negative integers with a total
  of at most \<open>2 ^ 53\<close>, so that no addition rounds, the bucket amounts add up to
  \<^verbatim>\<open>totals.totalAmount\<close>.
\<close>

theorem timeSeries_partition:
  assumes "\<forall>row\<in>set os. iso_date (date row)"
    and "\<forall>row\<in>set os. whole (amount row)"
    and "(\<Sum>row\<leftarrow>os. units (amount row)) \<le> 2 ^ 53"
  shows "distinct (map db_date (timeSeries cmp os)) \<and>
         sum_list (map db_count (timeSeries cmp os)) = orderCount (totals os) \<and>
         sum_numbers (map db_amount (timeSeries cmp os)) = totalAmount (totals os)"
proof -
  let ?b = "foldl time_step [] os"
  let ?c = "\<lambda>a b. cmp (db_date a) (db_date b)"
  let ?u = "\<lambda>k. \<Sum>row\<leftarrow>filter (\<lambda>row. date row = k) os. units (amount row)"
  have np: "\<forall>row\<in>set os. date row \<notin> set object_prototype_keys"
    using assms(1) iso_date_not_prototype by blast
  note e = bucket_entries [OF np]
  have ts: "timeSeries cmp os = sort_by ?c (map snd ?b)" by (rule timeSeries_iso [OF assms(1)])
  have dk: "distinct (map fst ?b)" and ks: "set (map fst ?b) = date ` set os"
    using foldl_time_step_keys [OF np, of "[]"] by simp_all
  have dd: "map (db_date \<circ> snd) ?b = map fst ?b" using e by (auto simp: map_eq_conv)
  have 1: "distinct (map db_date (timeSeries cmp os))"
    unfolding ts sort_by_props(3) map_map dd by (rule dk)
  have cc: "map (db_count \<circ> snd) ?b =
      map (\<lambda>k. length (filter (\<lambda>row. date row = k) os)) (map fst ?b)"
    using e by (auto simp: map_eq_conv)
  have "sum_list (map db_count (timeSeries cmp os)) =
      (\<Sum>k\<leftarrow>map fst ?b. length (filter (\<lambda>row. date row = k) os))"
    unfolding ts sort_by_props(2) map_map cc by (rule refl)
  also have "\<dots> = length os"
    using ks by (intro partition_length [OF dk]) simp
  finally have 2: "sum_list (map db_count (timeSeries cmp os)) = orderCount (totals os)"
    by (simp add: totals_def Let_def)
  have am: "db_amount d = Num (of_nat (?u k))" if "(k, d) \<in> set ?b" for k d
  proof -
    have "?u k \<le> 2 ^ 53" using filter_units_le [of _ os] assms(3) by (rule order_trans)
    then have "sum_amount (filter (\<lambda>row. date row = k) os) = Num (of_nat (?u k))"
      using foldl_amount_exact [of "filter (\<lambda>row. date row = k) os" 0] assms(2)
      by (simp add: sum_amount_def)
    then show ?thesis using e [OF that] by simp
  qed
  have uu: "map ((\<lambda>d. units (db_amount d)) \<circ> snd) ?b = map ?u (map fst ?b)"
    using am by (auto simp: map_eq_conv units_of_nat)
  have "sum_list (map (\<lambda>d. units (db_amount d)) (timeSeries cmp os)) =
      sum_list (map ?u (map fst ?b))"
    unfolding ts sort_by_props(2) map_map uu by (rule refl)
  also have "\<dots> = (\<Sum>row\<leftarrow>os. units (amount row))"
    using ks by (intro partition_sum [OF dk]) simp
  finally have su: "sum_list (map (\<lambda>d. units (db_amount d)) (timeSeries cmp os)) =
      (\<Sum>row\<leftarrow>os. units (amount row))" .
  have "\<forall>d\<in>set (timeSeries cmp os). db_amount d = Num (of_nat (units (db_amount d)))"
    using am by (auto simp: ts sort_by_props(1) units_of_nat)
  then have ma: "map db_amount (timeSeries cmp os) =
      map (\<lambda>n. Num (of_nat n)) (map (\<lambda>d. units (db_amount d)) (timeSeries cmp os))"
    by (simp add: map_eq_conv)
  have "sum_numbers (map (\<lambda>n. Num (of_nat n))
          (map (\<lambda>d. units (db_amount d)) (timeSeries cmp os))) =
      Num (of_nat (sum_list (map (\<lambda>d. units (db_amount d)) (timeSeries cmp os))))"
    by (rule sum_numbers_exact) (simp only: su assms(3))
  then have "sum_numbers (map db_amount (timeSeries cmp os)) =
      Num (of_nat (\<Sum>row\<leftarrow>os. units (amount row)))"
    by (simp only: ma [symmetric] su)
  moreover have "totalAmount (totals os) = Num (of_nat (\<Sum>row\<leftarrow>os. units (amount row)))"
    using foldl_amount_exact [OF assms(2), of 0] assms(3)
    by (simp add: totals_def Let_def sum_amount_def)
  ultimately have 3: "sum_numbers (map db_amount (timeSeries cmp os)) = totalAmount (totals os)"
    by simp
  from 1 2 3 show ?thesis by blast
qed

lemma sample_day_not_index:
  "array_index ''2024-03-14'' = None" "array_index ''2024-03-15'' = None"
  by (simp_all add: array_index_def)

lemmas timeSeries_eval = timeSeries_def time_step_def zero_bucket_def add_row_def object_values_def sort_by_def
  code_unit_compare_def sample_day_not_index object_prototype_keys_def

lemma collates_days_code_unit: "collates_days code_unit_compare"
  by (simp add: collates_days_def code_unit_compare_def)

lemma timeSeries_sample:
  "timeSeries code_unit_compare [order1, order2, order1] =
     [\<lparr>db_date = ''2024-03-14'', db_amount = Num 20, db_count = 1\<rparr>,
      \<lparr>db_date = ''2024-03-15'', db_amount = Num 20, db_count = 2\<rparr>]"
  by (simp add: timeSeries_eval order1_def order2_def fl_numeral)

theorem timeSeries_groups_sorted_witness:
  "(\<forall>row\<in>set [order1, order2, order1]. iso_date (date row)) \<and>
   collates_days code_unit_compare \<and>
   timeSeries code_unit_compare [order1, order2, order1] =
     [\<lparr>db_date = ''2024-03-14'', db_amount = Num 20, db_count = 1\<rparr>,
      \<lparr>db_date = ''2024-03-15'', db_amount = Num 20, db_count = 2\<rparr>] \<and>
   sorted (map db_date (timeSeries code_unit_compare [order1, order2, order1])) \<and>
   set (map db_date (timeSeries code_unit_compare [order1, order2, order1])) =
     {''2024-03-14'', ''2024-03-15''}"
proof -
  have 1: "\<forall>row\<in>set [order1, order2, order1]. iso_date (date row)"
    by (simp add: order1_def order2_def iso_date_def)
  have 2: "date ` set [order1, order2, order1] = {''2024-03-14'', ''2024-03-15''}"
    by (auto simp: order1_def order2_def)
  show ?thesis
    using timeSeries_groups_sorted [OF 1 collates_days_code_unit] 1 collates_days_code_unit
      timeSeries_sample
    by (simp only: 2)
qed

text \<open>
  Claim C10, as it stands, is about every order list. For the orders of 1, \<open>2 ^ 53\<close> and
  1, the first and last on one day, the two buckets hold \<open>2 ^ 53\<close> and 2 and add up to
  \<open>2 ^ 53 + 2\<close>, while \<^verbatim>\<open>totals\<close> adds \<open>(1 + 2 ^ 53) + 1\<close> and rounds both units away.
\<close>

theorem timeSeries_partition_counterexample:
  "list_all (\<lambda>row. iso_date (date row) \<and> is_double (amount row)) big_orders \<and>
   timeSeries code_unit_compare big_orders =
     [\<lparr>db_date = ''2024-03-14'', db_amount = Num 9007199254740992, db_count = 1\<rparr>,
      \<lparr>db_date = ''2024-03-15'', db_amount = Num 2, db_count = 2\<rparr>] \<and>
   sum_numbers (map db_amount (timeSeries code_unit_compare big_orders)) = Num 9007199254740994 \<and>
   totalAmount (totals big_orders) = Num 9007199254740992"
  by (simp add: timeSeries_eval big_orders_def order1_def order2_def iso_date_def is_double_def
      sum_numbers_def totals_def sum_amount_def Let_def
      fl_0 fl_1 fl_numeral fl_odd_above fl_even_above)

theorem timeSeries_partition_witness:
  "(\<forall>row\<in>set [order1, order2, order1]. iso_date (date row)) \<and>
   (\<forall>row\<in>set [order1, order2, order1]. whole (amount row)) \<and>
   (\<Sum>row\<leftarrow>[order1, order2, order1]. units (amount row)) \<le> 2 ^ 53 \<and>
   distinct (map db_date (timeSeries code_unit_compare [order1, order2, order1])) \<and>
   sum_list (map db_count (timeSeries code_unit_compare [order1, order2, order1])) = 3 \<and>
   sum_numbers (map db_amount (timeSeries code_unit_compare [order1, order2, order1])) = Num 40 \<and>
   totalAmount (totals [order1, order2, order1]) = Num 40"
proof -
  have 1: "\<forall>row\<in>set [order1, order2, order1]. iso_date (date row)"
    by (simp add: order1_def order2_def iso_date_def)
  have 2: "\<forall>row\<in>set [order1, order2, order1]. whole (amount row)"
    by (simp add: order1_def order2_def whole_def)
  have 3: "(\<Sum>row\<leftarrow>[order1, order2, order1]. units (amount row)) \<le> 2 ^ 53"
    by (simp add: order1_def order2_def units_def)
  have 4: "totalAmount (totals [order1, order2, order1]) = Num 40"
    by (simp add: order1_def order2_def totals_def sum_amount_def Let_def fl_numeral)
  show ?thesis
    using timeSeries_partition [OF 1 2 3, of code_unit_compare] 1 2 3 4
    by (simp add: totals_def Let_def)
qed

text \<open>
  Why the dates have to be calendar days: an order whose date names a property of
  \<^verbatim>\<open>Object.prototype\<close> gets no bucket.
\<close>

lemma timeSeries_inherited_key:
  "timeSeries cmp [order1\<lparr>date := ''constructor''\<rparr>] = []"
  by (simp add: timeSeries_def time_step_def object_values_def sort_by_def
      object_prototype_keys_def order1_def)

subsection \<open>The quick ranges\<close>

lemma fields_noon_utc:
  "YearFromTime 1710493200000 = 2024 \<and> MonthFromTime 1710493200000 = 2 \<and> DateFromTime 1710493200000 = 15 \<and>
   TimeWithinDay 1710493200000 = 32400000"
proof -
  have d: "Day 1710493200000 = 19797" by (simp add: Day_def msPerDay_def)
  have y: "YearFromTime 1710493200000 = 2024" by (simp add: YearFromTime_def d DayFromYear_def)
  have l: "InLeapYear 1710493200000 = 1" by (simp add: InLeapYear_def y DaysInYear_def)
  have w: "DayWithinYear 1710493200000 = 74" by (simp add: DayWithinYear_def d y DayFromYear_def)
  have m: "MonthFromTime 1710493200000 = 2" by (simp add: MonthFromTime_def w l)
  have dt: "DateFromTime 1710493200000 = 15" by (simp add: DateFromTime_def w l m)
  have tw: "TimeWithinDay 1710493200000 = 32400000" by (simp add: TimeWithinDay_def msPerDay_def)
  show ?thesis using y m dt tw by simp
qed

lemma iso_noon_utc: "iso_day (Some 1710493200000) = Inr ''2024-03-15''"
  by (simp add: iso_day_def toISOString_def fields_noon_utc pad2_def pad3_def pad4_def digit_def
      HourFromTime_def MinFromTime_def SecFromTime_def msFromTime_def)

lemma fields_noon_local:
  "YearFromTime 1710504000000 = 2024 \<and> MonthFromTime 1710504000000 = 2 \<and> DateFromTime 1710504000000 = 15 \<and>
   TimeWithinDay 1710504000000 = 43200000"
proof -
  have d: "Day 1710504000000 = 19797" by (simp add: Day_def msPerDay_def)
  have y: "YearFromTime 1710504000000 = 2024" by (simp add: YearFromTime_def d DayFromYear_def)
  have l: "InLeapYear 1710504000000 = 1" by (simp add: InLeapYear_def y DaysInYear_def)
  have w: "DayWithinYear 1710504000000 = 74" by (simp add: DayWithinYear_def d y DayFromYear_def)
  have m: "MonthFromTime 1710504000000 = 2" by (simp add: MonthFromTime_def w l)
  have dt: "DateFromTime 1710504000000 = 15" by (simp add: DateFromTime_def w l m)
  have tw: "TimeWithinDay 1710504000000 = 43200000" by (simp add: TimeWithinDay_def msPerDay_def)
  show ?thesis using y m dt tw by simp
qed

lemma iso_noon_local: "iso_day (Some 1710504000000) = Inr ''2024-03-15''"
  by (simp add: iso_day_def toISOString_def fields_noon_local pad2_def pad3_def pad4_def digit_def
      HourFromTime_def MinFromTime_def SecFromTime_def msFromTime_def)

lemma fields_month_start:
  "YearFromTime 1709240400000 = 2024 \<and> MonthFromTime 1709240400000 = 1 \<and> DateFromTime 1709240400000 = 29 \<and>
   TimeWithinDay 1709240400000 = 75600000"
proof -
  have d: "Day 1709240400000 = 19782" by (simp add: Day_def msPerDay_def)
  have y: "YearFromTime 1709240400000 = 2024" by (simp add: YearFromTime_def d DayFromYear_def)
  have l: "InLeapYear 1709240400000 = 1" by (simp add: InLeapYear_def y DaysInYear_def)
  have w: "DayWithinYear 1709240400000 = 59" by (simp add: DayWithinYear_def d y DayFromYear_def)
  have m: "MonthFromTime 1709240400000 = 1" by (simp add: MonthFromTime_def w l)
  have dt: "DateFromTime 1709240400000 = 29" by (simp add: DateFromTime_def w l m)
  have tw: "TimeWithinDay 1709240400000 = 75600000" by (simp add: TimeWithinDay_def msPerDay_def)
  show ?thesis using y m dt tw by simp
qed

lemma iso_month_start: "iso_day (Some 1709240400000) = Inr ''2024-02-29''"
  by (simp add: iso_day_def toISOString_def fields_month_start pad2_def pad3_def pad4_def digit_def
      HourFromTime_def MinFromTime_def SecFromTime_def msFromTime_def)

lemma fields_one_am_utc:
  "YearFromTime 1710453600000 = 2024 \<and> MonthFromTime 1710453600000 = 2 \<and> DateFromTime 1710453600000 = 14 \<and>
   TimeWithinDay 1710453600000 = 79200000"
proof -
  have d: "Day 1710453600000 = 19796" by (simp add: Day_def msPerDay_def)
  have y: "YearFromTime 1710453600000 = 2024" by (simp add: YearFromTime_def d DayFromYear_def)
  have l: "InLeapYear 1710453600000 = 1" by (simp add: InLeapYear_def y DaysInYear_def)
  have w: "DayWithinYear 1710453600000 = 73" by (simp add: DayWithinYear_def d y DayFromYear_def)
  have m: "MonthFromTime 1710453600000 = 2" by (simp add: MonthFromTime_def w l)
  have dt: "DateFromTime 1710453600000 = 14" by (simp add: DateFromTime_def w l m)
  have tw: "TimeWithinDay 1710453600000 = 79200000" by (simp add: TimeWithinDay_def msPerDay_def)
  show ?thesis using y m dt tw by simp
qed

lemma iso_one_am_utc: "iso_day (Some 1710453600000) = Inr ''2024-03-14''"
  by (simp add: iso_day_def toISOString_def fields_one_am_utc pad2_def pad3_def pad4_def digit_def
      HourFromTime_def MinFromTime_def SecFromTime_def msFromTime_def)

lemma fields_one_am_local:
  "YearFromTime 1710464400000 = 2024 \<and> MonthFromTime 1710464400000 = 2 \<and> DateFromTime 1710464400000 = 15 \<and>
   TimeWithinDay 1710464400000 = 3600000"
proof -
  have d: "Day 1710464400000 = 19797" by (simp add: Day_def msPerDay_def)
  have y: "YearFromTime 1710464400000 = 2024" by (simp add: YearFromTime_def d DayFromYear_def)
  have l: "InLeapYear 1710464400000 = 1" by (simp add: InLeapYear_def y DaysInYear_def)
  have w: "DayWithinYear 1710464400000 = 74" by (simp add: DayWithinYear_def d y DayFromYear_def)
  have m: "MonthFromTime 1710464400000 = 2" by (simp add: MonthFromTime_def w l)
  have dt: "DateFromTime 1710464400000 = 15" by (simp add: DateFromTime_def w l m)
  have tw: "TimeWithinDay 1710464400000 = 3600000" by (simp add: TimeWithinDay_def msPerDay_def)
  show ?thesis using y m dt tw by simp
qed

lemma iso_one_am_local: "iso_day (Some 1710464400000) = Inr ''2024-03-15''"
  by (simp add: iso_day_def toISOString_def fields_one_am_local pad2_def pad3_def pad4_def digit_def
      HourFromTime_def MinFromTime_def SecFromTime_def msFromTime_def)

lemma fields_week_start:
  "YearFromTime 1709935200000 = 2024 \<and> MonthFromTime 1709935200000 = 2 \<and> DateFromTime 1709935200000 = 8 \<and>
   TimeWithinDay 1709935200000 = 79200000"
proof -
  have d: "Day 1709935200000 = 19790" by (simp add: Day_def msPerDay_def)
  have y: "YearFromTime 1709935200000 = 2024" by (simp add: YearFromTime_def d DayFromYear_def)
  have l: "InLeapYear 1709935200000 = 1" by (simp add: InLeapYear_def y DaysInYear_def)
  have w: "DayWithinYear 1709935200000 = 67" by (simp add: DayWithinYear_def d y DayFromYear_def)
  have m: "MonthFromTime 1709935200000 = 2" by (simp add: MonthFromTime_def w l)
  have dt: "DateFromTime 1709935200000 = 8" by (simp add: DateFromTime_def w l m)
  have tw: "TimeWithinDay 1709935200000 = 79200000" by (simp add: TimeWithinDay_def msPerDay_def)
  show ?thesis using y m dt tw by simp
qed

lemma iso_week_start: "iso_day (Some 1709935200000) = Inr ''2024-03-08''"
  by (simp add: iso_day_def toISOString_def fields_week_start pad2_def pad3_def pad4_def digit_def
      HourFromTime_def MinFromTime_def SecFromTime_def msFromTime_def)


lemma MakeDay_2024_march: "MakeDay 2024 2 dt = 19782 + dt"
  by (simp add: MakeDay_def DaysInYear_def DayFromYear_def)

text \<open>
  Claim C5 says that the preset \<^verbatim>\<open>thisMonth\<close> yields the first day of the month up to
  today. At noon of 15 March 2024 in Istanbul, \<^verbatim>\<open>new Date(2024, 2, 1)\<close> is the local
  midnight of 1 March, which is 21:00 UTC of 29 February, and \<^verbatim>\<open>toISOString\<close> prints the
  UTC day: the range starts on the last day of February.
\<close>

theorem resetQuickRange_thisMonth_istanbul:
  "getFullYear istanbul noon_15_march = 2024 \<and>
   getMonth istanbul noon_15_march = 2 \<and>
   getDate istanbul noon_15_march = 15 \<and>
   resetQuickRange istanbul noon_15_march ''thisMonth''
       \<lparr>quickRange = ''7d'', startDate = ''2024-03-09'', endDate = ''2024-03-15''\<rparr> =
     (\<lparr>quickRange = ''thisMonth'', startDate = ''2024-02-29'', endDate = ''2024-03-15''\<rparr>, None)"
proof -
  have f: "getFullYear istanbul noon_15_march = 2024" "getMonth istanbul noon_15_march = 2"
    "getDate istanbul noon_15_march = 15"
    by (simp_all add: getFullYear_def getMonth_def getDate_def LocalTime_def istanbul_def
        noon_15_march_def fields_noon_local)
  have s: "new_Date istanbul 2024 2 1 = Some 1709240400000"
    by (simp add: new_Date_def MakeDay_2024_march MakeDate_def MakeTime_def msPerDay_def UTC_def
        TimeClip_def istanbul_def)
  have e: "iso_day (Some noon_15_march) = Inr ''2024-03-15''"
    by (simp add: noon_15_march_def iso_noon_utc)
  show ?thesis
    by (simp add: f resetQuickRange_def set_range_def s e iso_month_start)
qed

text \<open>
  The same conversion moves the preset \<^verbatim>\<open>7d\<close> during the first three hours of a day in
  Istanbul: at one o'clock of 15 March the range is 8 to 14 March.
\<close>

lemma resetQuickRange_7d_istanbul:
  "getDate istanbul one_am_15_march = 15 \<and>
   resetQuickRange istanbul one_am_15_march ''7d''
       \<lparr>quickRange = ''30d'', startDate = [], endDate = []\<rparr> =
     (\<lparr>quickRange = ''7d'', startDate = ''2024-03-08'', endDate = ''2024-03-14''\<rparr>, None)"
proof -
  have f: "getDate istanbul one_am_15_march = 15"
    by (simp add: getDate_def LocalTime_def istanbul_def one_am_15_march_def fields_one_am_local)
  have s: "setDate istanbul one_am_15_march 9 = Some 1709935200000"
    by (simp add: setDate_def LocalTime_def istanbul_def one_am_15_march_def fields_one_am_local
        MakeDay_2024_march MakeDate_def msPerDay_def UTC_def TimeClip_def)
  have e: "iso_day (Some one_am_15_march) = Inr ''2024-03-14''"
    by (simp add: one_am_15_march_def iso_one_am_utc)
  show ?thesis
    by (simp add: f resetQuickRange_def set_range_def s e iso_week_start)
qed

subsection \<open>The load-test iteration\<close>

text \<open>
  Claim C8. For every combination of HTTP responses (every response comes with a body,
  whatever its status and text), one iteration makes the four requests in the order
  login, list products, add to cart, create order, and ends without an error. Each check
  only records whether the status is the expected one. The requests after the login
  carry the token, and the cart request the product id, that \<^verbatim>\<open>json\<close> returned,
  \<^verbatim>\<open>undefined\<close> (\<open>None\<close>) included.
\<close>

theorem iteration_all_steps:
  assumes "\<forall>req. k6_body (http rt req) \<noteq> None"
  shows "snd (iteration rt) = None \<and>
     (\<exists>token productId.
        json rt (http rt login_request) ''token'' = Inr token \<and>
        json rt (http rt (products_request (auth_headers rt token))) ''items[0].id'' = Inr productId \<and>
        fst (iteration rt) =
          [Http login_request,
           Check check_login (k6_status (http rt login_request) = 200),
           Http (products_request (auth_headers rt token)),
           Check check_products
             (k6_status (http rt (products_request (auth_headers rt token))) = 200),
           Http (cart_request rt (auth_headers rt token) productId),
           Check check_cart
             (k6_status (http rt (cart_request rt (auth_headers rt token) productId)) = 200),
           Http (order_request rt (auth_headers rt token)),
           Check check_order
             (k6_status (http rt (order_request rt (auth_headers rt token))) = 200 \<or>
              k6_status (http rt (order_request rt (auth_headers rt token))) = 201),
           Sleep 1] \<and>
        requests (fst (iteration rt)) =
          [login_request, products_request (auth_headers rt token),
           cart_request rt (auth_headers rt token) productId,
           order_request rt (auth_headers rt token)])"
proof -
  obtain b1 where b1: "k6_body (http rt login_request) = Some b1"
    using assms by (meson option.exhaust)
  define token where "token = gjson rt b1 ''token''"
  have t: "json rt (http rt login_request) ''token'' = Inr token"
    by (simp add: json_def b1 token_def)
  obtain b2 where b2: "k6_body (http rt (products_request (auth_headers rt token))) = Some b2"
    using assms by (meson option.exhaust)
  define productId where "productId = gjson rt b2 ''items[0].id''"
  have p: "json rt (http rt (products_request (auth_headers rt token))) ''items[0].id'' = Inr productId"
    by (simp add: json_def b2 productId_def)
  show ?thesis
    using t p by (simp add: iteration_def Let_def)
qed

theorem iteration_all_steps_witness:
  "(\<forall>req. k6_body (http failing_runtime req) \<noteq> None) \<and>
   iteration failing_runtime =
     ([Http login_request, Check check_login False,
       Http (Get (BASE_URL @ ''/products?page=1&limit=20'')
          [(''Authorization'', ''Bearer undefined''), (''x-api-key'', API_KEY),
           (''Content-Type'', ''application/json'')]),
       Check check_products False,
       Http (Post (BASE_URL @ ''/cart/add'') (Text ''{\"quantity\":1}'')
          (Some [(''Authorization'', ''Bearer undefined''), (''x-api-key'', API_KEY),
                 (''Content-Type'', ''application/json'')])),
       Check check_cart False,
       Http (Post (BASE_URL @ ''/order'')
          (Text ''{\"payment\":\"TEST_MODE\",\"shipping\":\"EXPRESS\"}'')
          (Some [(''Authorization'', ''Bearer undefined''), (''x-api-key'', API_KEY),
                 (''Content-Type'', ''application/json'')])),
       Check check_order False,
       Sleep 1], None)"
proof -
  have 1: "\<forall>req. k6_body (http failing_runtime req) \<noteq> None"
    by (simp add: failing_runtime_def)
  show ?thesis
    using iteration_all_steps [OF 1] 1
    by (simp add: iteration_def json_def failing_runtime_def auth_headers_def
        products_request_def cart_request_def order_request_def Let_def)
qed

text \<open>
  Outside the claim: a request that fails without any HTTP response leaves a \<^verbatim>\<open>null\<close>
  body, on which \<^verbatim>\<open>json\<close> throws, and the iteration ends there.
\<close>

lemma iteration_null_body:
  assumes "k6_body (http rt login_request) = None"
  shows "iteration rt =
    ([Http login_request, Check check_login (k6_status (http rt login_request) = 200)],
     Some BodyIsNull)"
  using assms by (simp add: iteration_def json_def Let_def)

end
